theory Spec2Isabelle
  imports Complex_Main "HOL-Library.Word"
begin

section \<open>The Ngram kernel of contrib\_ops/cpu/ngram.cc\<close>

text \<open>
  The kernel is built once from its attributes by the constructor \<open>Ngram::Ngram\<close> and then
  run by \<open>Ngram::Compute\<close>. The embedding follows the source function by function.

  \<^item> \<open>int64_t\<close> attribute values are \<open>64 word\<close>, read as signed numbers with \<open>sint\<close>;
    a conversion to \<open>size_t\<close> (64 bits) is \<open>unat\<close>.
  \<^item> \<open>size_t\<close> counters that index memory (ids, offsets, sizes) are \<open>nat\<close>.
  \<^item> The frequency counters are \<open>uint32_t\<close>: \<open>32 word\<close>, whose \<open>+\<close> wraps.
  \<^item> Every \<open>ORT_ENFORCE\<close> that fails, every \<open>assert\<close> that fails, every signed arithmetic
    overflow and every read outside the input buffer is a value \<open>Inl e\<close> of the result.
\<close>

subsection \<open>Errors\<close>

datatype error =
    ModeRequired
  | UnrecognizedMode
  | PositiveMRequired
  | NGreaterEqualMRequired
  | NonNegativeSRequired
  | AllRequired
  | NonEmptyNgramCountsRequired
  | MOutOfBounds
  | NOutOfBounds
  | NonEmptyNgramIndexesRequired
  | NegativeNgramIndexes
  | WeightsIndexesSizeMismatch
  | EmptyPoolStrings
  | PoolInt64sRequired
  | NgramCountsOutOfBounds nat
  | NotWholeNgrams nat
  | DuplicateNgrams nat
  | NegativeIndex
  | AssertionFailed
  | SignedOverflow
  | OutOfBoundsRead
  | InvalidArgument

text \<open>The failures raised by the \<open>ORT_ENFORCE\<close> checks of the constructor.\<close>

fun configuration_error :: "error \<Rightarrow> bool" where
  "configuration_error NegativeIndex = False"
| "configuration_error AssertionFailed = False"
| "configuration_error SignedOverflow = False"
| "configuration_error OutOfBoundsRead = False"
| "configuration_error InvalidArgument = False"
| "configuration_error _ = True"

subsection \<open>N-gram items and pools\<close>

type_synonym int64_t = "64 word"
type_synonym int32_t = "32 word"
type_synonym uint32_t = "32 word"

text \<open>
  \<open>NgramItem<T>\<close>: the id in the pool and the items. The field \<open>hash_\<close> is a function of the
  items alone (it starts at 0 and \<open>RunningHash\<close> folds each item in, in the constructor and in
  \<open>AddItem\<close> alike), and \<open>operator==\<close> compares the items only, so an
  \<open>unordered_set<NgramItem<T>>\<close> is a collection of items with pairwise different \<open>items\<close>.
  The model keeps the elements in a list; only membership and size are ever observed.
\<close>

record 't NgramItem =
  Id :: nat
  items :: "'t list"

type_synonym 't PoolSet = "'t NgramItem list"

definition PoolFind :: "'t PoolSet \<Rightarrow> 't list \<Rightarrow> 't NgramItem option" where
  "PoolFind c sample = find (\<lambda>e. items e = sample) c"

text \<open>\<open>c.emplace(id, first, last)\<close>: no insertion when an equal element is present.\<close>

definition emplace :: "nat \<Rightarrow> 't list \<Rightarrow> 't PoolSet \<Rightarrow> 't PoolSet" where
  "emplace ngram_id its c =
     (case PoolFind c its of
        Some _ \<Rightarrow> c
      | None \<Rightarrow> c @ [\<lparr>Id = ngram_id, items = its\<rparr>])"

text \<open>
  \<open>Emplace\<close>: the iterator \<open>first\<close> is the rest of the vocabulary from its position on.
  The result is the advanced id counter and the container.
\<close>

fun Emplace :: "'t list \<Rightarrow> nat \<Rightarrow> nat \<Rightarrow> nat \<Rightarrow> 't PoolSet \<Rightarrow> nat \<times> 't PoolSet" where
  "Emplace first 0 ngram_size ngram_id c = (ngram_id, c)"
| "Emplace first (Suc ngrams) ngram_size ngram_id c =
     Emplace (drop ngram_size first) ngrams ngram_size (Suc ngram_id)
       (emplace ngram_id (take ngram_size first) c)"

subsection \<open>The kernel state\<close>

datatype WeightingCriteria = kNone | kTF | kIDF | kTFIDF

text \<open>
  A \<open>float\<close> is modelled by the real number it denotes. The kernel stores and copies floats,
  converts counters to float, and multiplies in one place; the product is a parameter of the
  encoder.
\<close>

type_synonym float = real

record Impl =
  weighting_criteria :: WeightingCriteria
  impl_N :: int64_t
  impl_M :: int64_t
  impl_S :: int64_t
  impl_all :: bool
  ngram_counts :: "int64_t list"
  ngram_indexes :: "int64_t list"
  weights :: "float list"
  pool_strings :: "string list"
  str_set :: "string PoolSet"
  int_set :: "int64_t PoolSet"
  output_size :: nat

text \<open>The attributes of the node, each present or absent (\<open>GetAttr\<close> fails on an absent one).\<close>

record OpKernelInfo =
  attr_mode :: "string option"
  attr_M :: "int64_t option"
  attr_N :: "int64_t option"
  attr_S :: "int64_t option"
  attr_all :: "int64_t option"
  attr_ngram_counts :: "int64_t list option"
  attr_ngram_indexes :: "int64_t list option"
  attr_weights :: "float list option"
  attr_pool_strings :: "string list option"
  attr_pool_int64s :: "int64_t list option"

subsection \<open>The constructor\<close>

text \<open>\<open>std::max_element\<close> with the signed order of \<open>int64_t\<close>, on a non-empty range.\<close>

definition max_element :: "int64_t list \<Rightarrow> int64_t" where
  "max_element xs = foldl (\<lambda>m x. if sint m < sint x then x else m) (hd xs) (tl xs)"

text \<open>
  One retained run: the insertion of \<open>ngrams\<close> n-grams of size \<open>ngram_size\<close> that start at
  \<open>start_idx\<close> of the vocabulary, and the check of the container's size after it
  (the same three lines for the integer and for the string pool).
\<close>

definition insert_run ::
    "'t list \<Rightarrow> nat \<Rightarrow> nat \<Rightarrow> nat \<Rightarrow> nat \<Rightarrow> 't PoolSet \<Rightarrow> error + nat \<times> 't PoolSet" where
  "insert_run vocabulary start_idx ngrams ngram_size ngram_id c =
     (let before_insert = length c;
          r = Emplace (drop start_idx vocabulary) ngrams ngram_size ngram_id c
      in if before_insert + ngrams = length (snd r) then Inr r
         else Inl (DuplicateNgrams ngram_size))"

text \<open>The test that decides whether the n-grams of one size are loaded.\<close>

definition retained :: "bool \<Rightarrow> nat \<Rightarrow> nat \<Rightarrow> nat \<Rightarrow> bool" where
  "retained all M N ngram_size \<longleftrightarrow> (all \<and> (ngram_size \<ge> M \<and> ngram_size \<le> N)) \<or> ngram_size = N"

text \<open>
  The body of the loop over \<open>ngram_counts_\<close> at index \<open>i\<close>, generic in the vocabulary:
  the result is the id counter and the container after the iteration.
\<close>

definition load_run ::
    "bool \<Rightarrow> nat \<Rightarrow> nat \<Rightarrow> int64_t list \<Rightarrow> 't list \<Rightarrow> nat \<Rightarrow> nat \<Rightarrow> nat \<Rightarrow> 't PoolSet
      \<Rightarrow> error + nat \<times> 't PoolSet" where
  "load_run all M N counts vocabulary i ngram_size ngram_id c =
     (let total_items = length vocabulary;
          start_idx = unat (counts ! i);
          end_idx = (if i + 1 < length counts then unat (counts ! (i + 1))
                     else total_items)
      in if \<not> (end_idx \<ge> start_idx \<and> end_idx \<le> total_items)
         then Inl (NgramCountsOutOfBounds ngram_size)
         else
           let n = end_idx - start_idx
           in if n > 0 then
                if n mod ngram_size \<noteq> 0 then Inl (NotWholeNgrams ngram_size)
                else
                  let ngrams = n div ngram_size
                  in if retained all M N ngram_size
                     then insert_run vocabulary start_idx ngrams ngram_size ngram_id c
                     else Inr (ngram_id + ngrams, c)
              else Inr (ngram_id, c))"

text \<open>The loop \<open>for (size_t i = 0; i < ngram_counts_.size(); ++i)\<close>, from \<open>i\<close> on.\<close>

function load_pool ::
    "bool \<Rightarrow> nat \<Rightarrow> nat \<Rightarrow> int64_t list \<Rightarrow> 't list \<Rightarrow> nat \<Rightarrow> nat \<Rightarrow> nat \<Rightarrow> 't PoolSet
      \<Rightarrow> error + nat \<times> 't PoolSet" where
  "load_pool all M N counts vocabulary i ngram_size ngram_id c =
     (if i < length counts then
        (case load_run all M N counts vocabulary i ngram_size ngram_id c of
           Inl e \<Rightarrow> Inl e
         | Inr r \<Rightarrow>
             load_pool all M N counts vocabulary (i + 1) (ngram_size + 1) (fst r) (snd r))
      else Inr (ngram_id, c))"
  by pat_completeness auto
termination
  by (relation "measure (\<lambda>(all, M, N, counts, vocabulary, i, ngram_size, ngram_id, c).
        length counts - i)") auto

declare load_pool.simps [simp del]

text \<open>
  \<open>Ngram::Ngram\<close>. The checks are in the order of the source. Line 296 tests \<open>N_\<close>, not
  \<open>S_\<close>, after reading \<open>S\<close>. The vocabulary is \<open>pool_strings\<close> when that attribute is
  present and \<open>pool_int64s\<close> otherwise; the pool of the other kind stays empty.
\<close>

definition Ngram :: "OpKernelInfo \<Rightarrow> error + Impl" where
  "Ngram info =
    (case attr_mode info of
       None \<Rightarrow> Inl ModeRequired
     | Some mode \<Rightarrow>
    let wc = (if mode = ''TF'' then kTF
              else if mode = ''IDF'' then kIDF
              else if mode = ''TFIDF'' then kTFIDF
              else kNone)
    in if wc = kNone then Inl UnrecognizedMode else
    (case attr_M info of
       None \<Rightarrow> Inl PositiveMRequired
     | Some M \<Rightarrow>
    if \<not> sint M > 0 then Inl PositiveMRequired else
    (case attr_N info of
       None \<Rightarrow> Inl NGreaterEqualMRequired
     | Some N \<Rightarrow>
    if \<not> sint N \<ge> sint M then Inl NGreaterEqualMRequired else
    (case attr_S info of
       None \<Rightarrow> Inl NonNegativeSRequired
     | Some S \<Rightarrow>
    if \<not> sint N \<ge> 0 then Inl NonNegativeSRequired else
    (case attr_all info of
       None \<Rightarrow> Inl AllRequired
     | Some all \<Rightarrow>
    (case attr_ngram_counts info of
       None \<Rightarrow> Inl NonEmptyNgramCountsRequired
     | Some counts \<Rightarrow>
    if counts = [] then Inl NonEmptyNgramCountsRequired else
    if \<not> unat M \<le> length counts then Inl MOutOfBounds else
    if \<not> unat N \<le> length counts then Inl NOutOfBounds else
    (case attr_ngram_indexes info of
       None \<Rightarrow> Inl NonEmptyNgramIndexesRequired
     | Some indexes \<Rightarrow>
    if indexes = [] then Inl NonEmptyNgramIndexesRequired else
    if \<not> list_all (\<lambda>i. sint i \<ge> 0) indexes then Inl NegativeNgramIndexes else
    let greatest_hit = max_element indexes
    in if sint greatest_hit = 2 ^ 63 - 1 then Inl SignedOverflow else
    let out_size = unat (greatest_hit + 1);
        ws = (case attr_weights info of None \<Rightarrow> [] | Some w \<Rightarrow> w)
    in if attr_weights info \<noteq> None \<and> length ws \<noteq> length indexes
       then Inl WeightsIndexesSizeMismatch else
    let impl = \<lparr>weighting_criteria = wc, impl_N = N, impl_M = M, impl_S = S, impl_all = (all \<noteq> 0),
                ngram_counts = counts, ngram_indexes = indexes,
                weights = ws, pool_strings = [], str_set = [], int_set = [],
                output_size = out_size\<rparr>
    in
    (case attr_pool_strings info of
       Some strings \<Rightarrow>
         if strings = [] then Inl EmptyPoolStrings
         else
           (case load_pool (all \<noteq> 0) (unat M) (unat N) counts strings 0 1 0 [] of
              Inl e \<Rightarrow> Inl e
            | Inr r \<Rightarrow> Inr (impl\<lparr>pool_strings := strings, str_set := snd r\<rparr>))
     | None \<Rightarrow>
         (case attr_pool_int64s info of
            None \<Rightarrow> Inl PoolInt64sRequired
          | Some pool_int64s \<Rightarrow>
              if pool_int64s = [] then Inl PoolInt64sRequired
              else
                (case load_pool (all \<noteq> 0) (unat M) (unat N) counts pool_int64s 0 1 0 [] of
                   Inl e \<Rightarrow> Inl e
                 | Inr r \<Rightarrow> Inr (impl\<lparr>int_set := snd r\<rparr>)))))))))))"

subsection \<open>Counting\<close>

text \<open>
  \<open>Impl::IncrementCount\<close>. The two \<open>assert\<close>s and the \<open>ORT_ENFORCE\<close> are the three
  failures; \<open>++frequencies[output_idx]\<close> is the addition of \<open>uint32_t\<close>, which wraps.
\<close>

definition IncrementCount :: "Impl \<Rightarrow> nat \<Rightarrow> uint32_t list \<Rightarrow> error + uint32_t list" where
  "IncrementCount impl ngram_id frequencies =
     (if \<not> ngram_id < length (ngram_indexes impl) then Inl AssertionFailed
      else
        let output_idx = ngram_indexes impl ! ngram_id
        in if \<not> sint output_idx \<ge> 0 then Inl NegativeIndex
           else if \<not> unat output_idx < length frequencies then Inl AssertionFailed
           else Inr (frequencies[unat output_idx := frequencies ! unat output_idx + 1]))"

text \<open>
  The five lines \<open>hit = PoolFind(sample); if (hit != set_end) IncrementCount(hit->Id(), ...)\<close>,
  which the unigram pass and the general pass share.
\<close>

definition record_hit :: "Impl \<Rightarrow> 't PoolSet \<Rightarrow> 't list \<Rightarrow> uint32_t list \<Rightarrow> error + uint32_t list" where
  "record_hit impl c sample frequencies =
     (case PoolFind c sample of
        None \<Rightarrow> Inr frequencies
      | Some hit \<Rightarrow> IncrementCount impl (Id hit) frequencies)"

text \<open>
  Pointers into the input are offsets from \<open>input_data\<close>, as integers (the address space is
  taken not to wrap); \<open>end_data\<close> is the offset \<open>total_items\<close>. Reading \<open>*p\<close> outside the
  buffer is \<open>OutOfBoundsRead\<close>.
\<close>

definition read_item :: "'t list \<Rightarrow> int \<Rightarrow> error + 't" where
  "read_item input_data p =
     (if 0 \<le> p \<and> p < int (length input_data) then Inr (input_data ! nat p)
      else Inl OutOfBoundsRead)"

definition INT_MAX :: int where
  "INT_MAX = 2 ^ 31 - 1"

definition int64_range :: "int \<Rightarrow> bool" where
  "int64_range x \<longleftrightarrow> - (2 ^ 63) \<le> x \<and> x < 2 ^ 63"

text \<open>The loop \<open>while (ngram_start < end_data)\<close> of the unigram pass.\<close>

function unigram_loop ::
    "Impl \<Rightarrow> 't PoolSet \<Rightarrow> 't list \<Rightarrow> int \<Rightarrow> int \<Rightarrow> uint32_t list \<Rightarrow> error + uint32_t list" where
  "unigram_loop impl c input_data end_data ngram_start frequencies =
     (if ngram_start < end_data then
        (case read_item input_data ngram_start of
           Inl e \<Rightarrow> Inl e
         | Inr v \<Rightarrow>
             (case record_hit impl c [v] frequencies of
                Inl e \<Rightarrow> Inl e
              | Inr frequencies' \<Rightarrow>
                  unigram_loop impl c input_data end_data (ngram_start + 1) frequencies'))
      else Inr frequencies)"
  by pat_completeness auto
termination
  by (relation "measure (\<lambda>(impl, c, input_data, end_data, ngram_start, frequencies).
        nat (end_data - ngram_start))") auto

declare unigram_loop.simps [simp del]

text \<open>
  The loop \<open>for (auto ni = 1; ni <= N && ngram_item < end_data; ++ni, ngram_item += si)\<close>:
  the window grows by one item per round, and is looked up once \<open>ni >= start_ngram_size\<close>.
  \<open>ni\<close> is an \<open>int\<close>; incrementing \<open>INT_MAX\<close> overflows.
\<close>

function ngram_loop ::
    "Impl \<Rightarrow> 't PoolSet \<Rightarrow> 't list \<Rightarrow> int \<Rightarrow> int \<Rightarrow> int \<Rightarrow> int \<Rightarrow> int \<Rightarrow> int \<Rightarrow> 't list
      \<Rightarrow> uint32_t list \<Rightarrow> error + uint32_t list" where
  "ngram_loop impl c input_data end_data N start_ngram_size si ni ngram_item sample frequencies =
     (if ni \<le> N \<and> ngram_item < end_data then
        (case read_item input_data ngram_item of
           Inl e \<Rightarrow> Inl e
         | Inr v \<Rightarrow>
             (case (if ni \<ge> start_ngram_size then record_hit impl c (sample @ [v]) frequencies
                    else Inr frequencies) of
                Inl e \<Rightarrow> Inl e
              | Inr frequencies' \<Rightarrow>
                  if ni = INT_MAX then Inl SignedOverflow
                  else ngram_loop impl c input_data end_data N start_ngram_size si
                         (ni + 1) (ngram_item + si) (sample @ [v]) frequencies'))
      else Inr frequencies)"
  by pat_completeness auto
termination
  by (relation "measure (\<lambda>(impl, c, input_data, end_data, N, start_ngram_size, si, ni,
        ngram_item, sample, frequencies). nat (N + 1 - ni))") auto

declare ngram_loop.simps [simp del]

text \<open>
  The loop \<open>while (ngram_start < end_data)\<close> of the general pass, for one distance \<open>si\<close>.
  \<open>si * (start_ngram_size - 1)\<close> is computed in \<open>int64_t\<close>.
\<close>

function start_loop ::
    "Impl \<Rightarrow> 't PoolSet \<Rightarrow> 't list \<Rightarrow> int \<Rightarrow> int \<Rightarrow> int \<Rightarrow> int \<Rightarrow> int
      \<Rightarrow> uint32_t list \<Rightarrow> error + uint32_t list" where
  "start_loop impl c input_data end_data N start_ngram_size si ngram_start frequencies =
     (if ngram_start < end_data then
        if \<not> (int64_range (start_ngram_size - 1) \<and> int64_range (si * (start_ngram_size - 1)))
        then Inl SignedOverflow
        else
          let at_least_this = ngram_start + si * (start_ngram_size - 1)
          in if at_least_this \<ge> end_data then Inr frequencies
             else
               (case ngram_loop impl c input_data end_data N start_ngram_size si 1 ngram_start []
                       frequencies of
                  Inl e \<Rightarrow> Inl e
                | Inr frequencies' \<Rightarrow>
                    start_loop impl c input_data end_data N start_ngram_size si (ngram_start + 1)
                      frequencies')
      else Inr frequencies)"
  by pat_completeness auto
termination
  by (relation "measure (\<lambda>(impl, c, input_data, end_data, N, start_ngram_size, si, ngram_start,
        frequencies). nat (end_data - ngram_start))") auto

declare start_loop.simps [simp del]

text \<open>
  The loop \<open>for (auto si = 1; si <= S; ++si)\<close>, from \<open>si\<close> on. \<open>si\<close> is an \<open>int\<close> and
  \<open>S\<close> an \<open>int64_t\<close>; incrementing \<open>INT_MAX\<close> overflows.
\<close>

function skip_loop ::
    "Impl \<Rightarrow> 't PoolSet \<Rightarrow> 't list \<Rightarrow> int \<Rightarrow> int \<Rightarrow> int \<Rightarrow> int \<Rightarrow> int
      \<Rightarrow> uint32_t list \<Rightarrow> error + uint32_t list" where
  "skip_loop impl c input_data end_data N start_ngram_size S si frequencies =
     (if si \<le> S then
        (case start_loop impl c input_data end_data N start_ngram_size si 0 frequencies of
           Inl e \<Rightarrow> Inl e
         | Inr frequencies' \<Rightarrow>
             if si = INT_MAX then Inl SignedOverflow
             else skip_loop impl c input_data end_data N start_ngram_size S (si + 1) frequencies')
      else Inr frequencies)"
  by pat_completeness auto
termination
  by (relation "measure (\<lambda>(impl, c, input_data, end_data, N, start_ngram_size, S, si,
        frequencies). nat (S + 1 - si))") auto

declare skip_loop.simps [simp del]

text \<open>
  \<open>Ngram::ComputeImpl<T>\<close> up to its two calls of \<open>OutputResult\<close>: the frequencies that
  either call receives. \<open>impl.S_ + 1\<close> is a signed addition.
\<close>

definition ComputeImpl_frequencies ::
    "Impl \<Rightarrow> 't PoolSet \<Rightarrow> 't list \<Rightarrow> nat \<Rightarrow> error + uint32_t list" where
  "ComputeImpl_frequencies impl c input_data total_items =
     (let frequencies = replicate (output_size impl) 0;
          N = sint (impl_N impl)
      in if sint (impl_S impl) = 2 ^ 63 - 1 then Inl SignedOverflow
         else
           let S = sint (impl_S impl) + 1;
               start_ngram_size = (if impl_all impl then sint (impl_M impl) else N);
               end_data = int total_items
           in if start_ngram_size = 1 then
                (case unigram_loop impl c input_data end_data 0 frequencies of
                   Inl e \<Rightarrow> Inl e
                 | Inr frequencies' \<Rightarrow>
                     if start_ngram_size + 1 > N then Inr frequencies'
                     else skip_loop impl c input_data end_data N (start_ngram_size + 1) S 1
                            frequencies')
              else skip_loop impl c input_data end_data N start_ngram_size S 1 frequencies)"

subsection \<open>Encoding\<close>

fun bit_length :: "nat \<Rightarrow> nat" where
  "bit_length n = (if n = 0 then 0 else Suc (bit_length (n div 2)))"

declare bit_length.simps [simp del]

text \<open>
  \<open>static_cast<float>(f)\<close> for a \<open>uint32_t\<close>: exact below \<open>2 ^ 24\<close>, and above it the
  nearest number with 24 significant bits, ties to the even one.
\<close>

definition float_of_uint32 :: "uint32_t \<Rightarrow> float" where
  "float_of_uint32 f =
     (let n = unat f
      in if n < 2 ^ 24 then real n
         else
           let e = bit_length n - 24; q = n div 2 ^ e; r = n mod 2 ^ e
           in real ((if 2 * r > 2 ^ e \<or> (2 * r = 2 ^ e \<and> odd q) then q + 1 else q) * 2 ^ e))"

text \<open>
  \<open>Ngram::OutputResult\<close>: the values written to the output tensor, whose only dimension is
  \<open>frequences.size()\<close>. \<open>fmul\<close> is the product of two floats.
\<close>

definition OutputResult ::
    "(float \<Rightarrow> float \<Rightarrow> float) \<Rightarrow> Impl \<Rightarrow> uint32_t list \<Rightarrow> error + float list" where
  "OutputResult fmul impl frequences =
     (let w = weights impl
      in case weighting_criteria impl of
           kTF \<Rightarrow> Inr (map float_of_uint32 frequences)
         | kIDF \<Rightarrow>
             if w \<noteq> [] then
               if length frequences \<noteq> length w then Inl AssertionFailed
               else Inr (map (\<lambda>i. if frequences ! i > 0 then w ! i else 0)
                          [0..<length frequences])
             else Inr (map (\<lambda>f. if f > 0 then 1 else 0) frequences)
         | kTFIDF \<Rightarrow>
             if w \<noteq> [] then
               if length frequences \<noteq> length w then Inl AssertionFailed
               else Inr (map (\<lambda>i. fmul (float_of_uint32 (frequences ! i)) (w ! i))
                          [0..<length frequences])
             else Inr (map float_of_uint32 frequences)
         | kNone \<Rightarrow> Inl AssertionFailed)"

definition ComputeImpl ::
    "(float \<Rightarrow> float \<Rightarrow> float) \<Rightarrow> Impl \<Rightarrow> 't PoolSet \<Rightarrow> 't list \<Rightarrow> nat \<Rightarrow> error + float list" where
  "ComputeImpl fmul impl c input_data total_items =
     (case ComputeImpl_frequencies impl c input_data total_items of
        Inl e \<Rightarrow> Inl e
      | Inr frequencies \<Rightarrow> OutputResult fmul impl frequencies)"

subsection \<open>Compute\<close>

text \<open>
  The input tensor: its dimensions and its elements, tagged with the element type.
  \<open>OtherData\<close> stands for every element type but the three that the kernel handles.
\<close>

datatype TensorData =
    Int32Data "int32_t list"
  | Int64Data "int64_t list"
  | StringData "string list"
  | OtherData

record Tensor =
  Shape :: "nat list"
  Data :: TensorData

text \<open>
  \<open>Ngram::Compute\<close>, a \<open>const\<close> member: the result is the kernel state after the call
  and the outcome, \<open>Inr\<close> of the output tensor's values when the status is OK.
  An \<open>int32_t\<close> item is widened to \<open>int64_t\<close> by \<open>AddItem(int64_t)\<close>, and looked up
  in the integer pool.
\<close>

definition Compute ::
    "(float \<Rightarrow> float \<Rightarrow> float) \<Rightarrow> Impl \<Rightarrow> Tensor \<Rightarrow> Impl \<times> (error + float list)" where
  "Compute fmul impl X =
     (let input_dims = Shape X;
          total_items =
            (if input_dims = [] \<or> (length input_dims = 1 \<and> input_dims ! 0 = 0) then 1
             else foldl (*) 1 input_dims)
      in (impl,
          case Data X of
            Int32Data xs \<Rightarrow> ComputeImpl fmul impl (int_set impl) (map scast xs) total_items
          | Int64Data xs \<Rightarrow> ComputeImpl fmul impl (int_set impl) xs total_items
          | StringData xs \<Rightarrow> ComputeImpl fmul impl (str_set impl) xs total_items
          | OtherData \<Rightarrow> Inl InvalidArgument))"

subsection \<open>The n-grams of a vocabulary\<close>

text \<open>
  The reading of the attributes that the pool is meant to realise: \<open>ngram_counts[i]\<close> is the
  offset at which the run of the n-grams of size \<open>i + 1\<close> starts, and the run ends where the
  next one starts, or at the end of the vocabulary. These definitions follow the description
  of the attributes, not the constructor, and are what the constructor is compared with.
\<close>

definition run_start :: "int64_t list \<Rightarrow> nat \<Rightarrow> nat" where
  "run_start counts i = unat (counts ! i)"

definition run_end :: "int64_t list \<Rightarrow> 't list \<Rightarrow> nat \<Rightarrow> nat" where
  "run_end counts vocabulary i =
     (if i + 1 < length counts then unat (counts ! (i + 1)) else length vocabulary)"

text \<open>The first \<open>n\<close> consecutive windows of size \<open>k\<close> of a list.\<close>

fun chop :: "nat \<Rightarrow> nat \<Rightarrow> 't list \<Rightarrow> 't list list" where
  "chop 0 k xs = []"
| "chop (Suc n) k xs = take k xs # chop n k (drop k xs)"

definition run_ngrams :: "int64_t list \<Rightarrow> 't list \<Rightarrow> nat \<Rightarrow> 't list list" where
  "run_ngrams counts vocabulary i =
     chop ((run_end counts vocabulary i - run_start counts i) div (i + 1)) (i + 1)
       (drop (run_start counts i) vocabulary)"

text \<open>
  The n-grams of the sizes up to \<open>i\<close>, and all n-grams of the vocabulary, size by size,
  whether loaded into the pool or not. The position of an n-gram in \<open>all_ngrams\<close> is its
  ordinal number in the full vocabulary.
\<close>

definition ngrams_before :: "int64_t list \<Rightarrow> 't list \<Rightarrow> nat \<Rightarrow> 't list list" where
  "ngrams_before counts vocabulary i = concat (map (run_ngrams counts vocabulary) [0..<i])"

definition all_ngrams :: "int64_t list \<Rightarrow> 't list \<Rightarrow> 't list list" where
  "all_ngrams counts vocabulary = ngrams_before counts vocabulary (length counts)"

text \<open>The run of size \<open>i + 1\<close> lies in the vocabulary and consists of whole n-grams.\<close>

definition run_valid :: "int64_t list \<Rightarrow> 't list \<Rightarrow> nat \<Rightarrow> bool" where
  "run_valid counts vocabulary i \<longleftrightarrow>
     run_start counts i \<le> run_end counts vocabulary i \<and>
     run_end counts vocabulary i \<le> length vocabulary \<and>
     (run_end counts vocabulary i - run_start counts i) mod (i + 1) = 0"

subsection \<open>Contiguous windows\<close>

text \<open>
  The scan of the windows that start at \<open>p\<close> as the specification describes it for the
  distance 1: the window of size \<open>ni\<close> is the slice of the input from \<open>p\<close> to
  \<open>p + ni - 1\<close>, for \<open>ni = 1, 2, \<dots>\<close> while \<open>ni \<le> N\<close> and the slice ends before
  \<open>end_data\<close>; it is looked up once \<open>ni \<ge> start_ngram_size\<close>. The general pass is compared
  with it below.
\<close>

function contiguous_loop ::
    "Impl \<Rightarrow> 't PoolSet \<Rightarrow> 't list \<Rightarrow> int \<Rightarrow> int \<Rightarrow> int \<Rightarrow> int \<Rightarrow> int
      \<Rightarrow> uint32_t list \<Rightarrow> error + uint32_t list" where
  "contiguous_loop impl c input_data end_data N start_ngram_size p ni frequencies =
     (if ni \<le> N \<and> p + ni - 1 < end_data then
        if \<not> (0 \<le> p + ni - 1 \<and> p + ni - 1 < int (length input_data)) then Inl OutOfBoundsRead
        else
          (case (if ni \<ge> start_ngram_size
                 then record_hit impl c (take (nat ni) (drop (nat p) input_data)) frequencies
                 else Inr frequencies) of
             Inl e \<Rightarrow> Inl e
           | Inr frequencies' \<Rightarrow>
               if ni = INT_MAX then Inl SignedOverflow
               else contiguous_loop impl c input_data end_data N start_ngram_size p (ni + 1)
                      frequencies')
      else Inr frequencies)"
  by pat_completeness auto
termination
  by (relation "measure (\<lambda>(impl, c, input_data, end_data, N, start_ngram_size, p, ni,
        frequencies). nat (N + 1 - ni))") auto

declare contiguous_loop.simps [simp del]

text \<open>
  \<open>ComputeImpl\<close> with the loop over the distances replaced by the single pass for the
  distance 1.
\<close>

definition distance_1_frequencies ::
    "Impl \<Rightarrow> 't PoolSet \<Rightarrow> 't list \<Rightarrow> nat \<Rightarrow> error + uint32_t list" where
  "distance_1_frequencies impl c input_data total_items =
     (let frequencies = replicate (output_size impl) 0;
          N = sint (impl_N impl);
          start_ngram_size = (if impl_all impl then sint (impl_M impl) else N);
          end_data = int total_items
      in if start_ngram_size = 1 then
           (case unigram_loop impl c input_data end_data 0 frequencies of
              Inl e \<Rightarrow> Inl e
            | Inr frequencies' \<Rightarrow>
                if start_ngram_size + 1 > N then Inr frequencies'
                else start_loop impl c input_data end_data N (start_ngram_size + 1) 1 0
                       frequencies')
         else start_loop impl c input_data end_data N start_ngram_size 1 0 frequencies)"

subsection \<open>Measures of the counters\<close>

text \<open>The sum of all counters, and growth of every counter by at most \<open>n\<close> in total.\<close>

definition total_count :: "uint32_t list \<Rightarrow> nat" where
  "total_count f = sum_list (map unat f)"

definition grows_by :: "uint32_t list \<Rightarrow> uint32_t list \<Rightarrow> nat \<Rightarrow> bool" where
  "grows_by f f' n \<longleftrightarrow> list_all2 (\<le>) f f' \<and> total_count f' \<le> total_count f + n"

subsection \<open>Configurations used below\<close>

text \<open>
  The scenario of the specification: unigrams \<open>a\<close> and \<open>b\<close> (ids 0 and 1), the bigram
  \<open>(a, b)\<close> (id 2), every size from 1 to 2 loaded, no skips, term frequencies.
\<close>

definition scenario_info :: OpKernelInfo where
  "scenario_info =
     \<lparr>attr_mode = Some ''TF'', attr_M = Some 1, attr_N = Some 2, attr_S = Some 0,
      attr_all = Some 1, attr_ngram_counts = Some [0, 2], attr_ngram_indexes = Some [0, 1, 2],
      attr_weights = None, attr_pool_strings = Some [''a'', ''b'', ''a'', ''b''],
      attr_pool_int64s = None\<rparr>"

definition scenario_impl :: Impl where
  "scenario_impl =
     \<lparr>weighting_criteria = kTF, impl_N = 2, impl_M = 1, impl_S = 0, impl_all = True,
      ngram_counts = [0, 2], ngram_indexes = [0, 1, 2], weights = [],
      pool_strings = [''a'', ''b'', ''a'', ''b''],
      str_set = [\<lparr>Id = 0, items = [''a'']\<rparr>, \<lparr>Id = 1, items = [''b'']\<rparr>,
                 \<lparr>Id = 2, items = [''a'', ''b'']\<rparr>],
      int_set = [], output_size = 3\<rparr>"

definition scenario_input :: Tensor where
  "scenario_input = \<lparr>Shape = [3], Data = StringData [''a'', ''b'', ''a'']\<rparr>"

text \<open>
  A configuration that the constructor accepts although its pool has three n-grams and
  \<open>ngram_indexes\<close> one entry only.
\<close>

definition short_indexes_info :: OpKernelInfo where
  "short_indexes_info =
     \<lparr>attr_mode = Some ''TF'', attr_M = Some 1, attr_N = Some 1, attr_S = Some 0,
      attr_all = Some 0, attr_ngram_counts = Some [0], attr_ngram_indexes = Some [0],
      attr_weights = None, attr_pool_strings = None, attr_pool_int64s = Some [1, 2, 3]\<rparr>"

definition short_indexes_impl :: Impl where
  "short_indexes_impl =
     \<lparr>weighting_criteria = kTF, impl_N = 1, impl_M = 1, impl_S = 0, impl_all = False,
      ngram_counts = [0], ngram_indexes = [0], weights = [], pool_strings = [],
      str_set = [],
      int_set = [\<lparr>Id = 0, items = [1]\<rparr>, \<lparr>Id = 1, items = [2]\<rparr>, \<lparr>Id = 2, items = [3]\<rparr>],
      output_size = 1\<rparr>"

text \<open>
  A pool with the single bigram \<open>(7, 7)\<close>, only bigrams loaded, with skip count \<open>S\<close>.
\<close>

definition sevens_info :: "int64_t \<Rightarrow> OpKernelInfo" where
  "sevens_info S =
     \<lparr>attr_mode = Some ''TF'', attr_M = Some 2, attr_N = Some 2, attr_S = Some S,
      attr_all = Some 0, attr_ngram_counts = Some [0, 0], attr_ngram_indexes = Some [0],
      attr_weights = None, attr_pool_strings = None, attr_pool_int64s = Some [7, 7]\<rparr>"

definition sevens_impl :: "int64_t \<Rightarrow> Impl" where
  "sevens_impl S =
     \<lparr>weighting_criteria = kTF, impl_N = 2, impl_M = 2, impl_S = S, impl_all = False,
      ngram_counts = [0, 0], ngram_indexes = [0], weights = [], pool_strings = [],
      str_set = [], int_set = [\<lparr>Id = 0, items = [7, 7]\<rparr>], output_size = 1\<rparr>"

text \<open>
  A vocabulary whose run of size 2 is one item long, before a run of size 3 that repeats a
  trigram.
\<close>

definition malformed_run_info :: OpKernelInfo where
  "malformed_run_info =
     \<lparr>attr_mode = Some ''TF'', attr_M = Some 1, attr_N = Some 3, attr_S = Some 0,
      attr_all = Some 1, attr_ngram_counts = Some [0, 3, 4],
      attr_ngram_indexes = Some [0, 1, 2, 3, 4], attr_weights = None,
      attr_pool_strings =
        Some [''a'', ''b'', ''c'', ''d'', ''x'', ''y'', ''z'', ''x'', ''y'', ''z''],
      attr_pool_int64s = None\<rparr>"


subsection \<open>Successive invocations\<close>


section \<open>Properties\<close>

subsection \<open>Auxiliary facts\<close>

lemma unat_eq_nat_sint:
  fixes w :: int64_t
  assumes "0 \<le> sint w"
  shows "unat w = nat (sint w)"
proof -
  have "sint w < 2 ^ 63"
    using sint_lt [of w] by simp
  then have "sint w < 2 ^ 64"
    by simp
  with assms have "take_bit 64 (sint w) = sint w"
    by (simp add: take_bit_int_eq_self)
  then have "uint w = sint w"
    using uint_sint [of w] by simp
  then show ?thesis
    by (simp add: unat_eq_nat_uint)
qed

text \<open>What the fields of an accepted kernel are, in terms of the attributes.\<close>

lemma Ngram_fields_case:
  "case Ngram info of
     Inl e \<Rightarrow> True
   | Inr impl \<Rightarrow>
       attr_M info = Some (impl_M impl) \<and> attr_N info = Some (impl_N impl) \<and>
       attr_S info = Some (impl_S impl) \<and>
       attr_all info \<noteq> None \<and> impl_all impl = (attr_all info \<noteq> Some 0) \<and>
       attr_ngram_counts info = Some (ngram_counts impl) \<and>
       attr_ngram_indexes info = Some (ngram_indexes impl) \<and>
       weights impl = (case attr_weights info of None \<Rightarrow> [] | Some w \<Rightarrow> w) \<and>
       attr_mode info =
         Some (case weighting_criteria impl of
                 kTF \<Rightarrow> ''TF'' | kIDF \<Rightarrow> ''IDF'' | kTFIDF \<Rightarrow> ''TFIDF'' | kNone \<Rightarrow> [])"
  by (simp add: Ngram_def Let_def split: option.split sum.split)

lemma Ngram_fields:
  assumes "Ngram info = Inr impl"
  shows "attr_M info = Some (impl_M impl)" and "attr_N info = Some (impl_N impl)"
    and "attr_S info = Some (impl_S impl)"
    and "attr_all info \<noteq> None" and "impl_all impl = (attr_all info \<noteq> Some 0)"
    and "attr_ngram_counts info = Some (ngram_counts impl)"
    and "attr_ngram_indexes info = Some (ngram_indexes impl)"
    and "weights impl = (case attr_weights info of None \<Rightarrow> [] | Some w \<Rightarrow> w)"
    and "attr_mode info =
           Some (case weighting_criteria impl of
                   kTF \<Rightarrow> ''TF'' | kIDF \<Rightarrow> ''IDF'' | kTFIDF \<Rightarrow> ''TFIDF'' | kNone \<Rightarrow> [])"
  using Ngram_fields_case [of info] assms by simp_all



text \<open>The scenario, evaluated.\<close>

lemma scenario_built: "Ngram scenario_info = Inr scenario_impl"
  unfolding scenario_info_def scenario_impl_def by code_simp

lemma scenario_counted:
  "ComputeImpl_frequencies scenario_impl (str_set scenario_impl) [''a'', ''b'', ''a''] 3
     = Inr [2, 1, 1]"
  unfolding scenario_impl_def by code_simp

lemma scenario_encoded: "OutputResult fmul scenario_impl [2, 1, 1] = Inr [2, 1, 1]"
  by (simp add: OutputResult_def float_of_uint32_def scenario_impl_def)

lemma scenario_ComputeImpl:
  "ComputeImpl fmul scenario_impl (str_set scenario_impl) [''a'', ''b'', ''a''] 3 = Inr [2, 1, 1]"
  by (simp add: ComputeImpl_def scenario_counted scenario_encoded)

lemma scenario_Compute: "Compute fmul scenario_impl scenario_input = (scenario_impl, Inr [2, 1, 1])"
  using scenario_ComputeImpl [of fmul] by (simp add: Compute_def scenario_input_def)

subsection \<open>The skip count is not validated\<close>

text \<open>
  Claim C1 (every configuration with a negative skip count \<open>S\<close> is rejected by the
  constructor) does not hold of the code: the check after reading \<open>S\<close> tests \<open>N_\<close>.
  The scenario with \<open>S = -1\<close> is accepted, the kernel stores \<open>S_ = -1\<close>, and a
  computation on it returns normally, with the bigram never counted.
\<close>

theorem negative_S_accepted:
  "Ngram (scenario_info\<lparr>attr_S := Some (- 1)\<rparr>) = Inr (scenario_impl\<lparr>impl_S := - 1\<rparr>) \<and>
   sint (impl_S (scenario_impl\<lparr>impl_S := - 1\<rparr>)) = - 1 \<and>
   snd (Compute fmul (scenario_impl\<lparr>impl_S := - 1\<rparr>) scenario_input) = Inr [2, 1, 0]"
proof -
  have built:
    "Ngram (scenario_info\<lparr>attr_S := Some (- 1)\<rparr>) = Inr (scenario_impl\<lparr>impl_S := - 1\<rparr>)"
    unfolding scenario_info_def scenario_impl_def by code_simp
  have counted:
    "ComputeImpl_frequencies (scenario_impl\<lparr>impl_S := - 1\<rparr>) (str_set scenario_impl)
       [''a'', ''b'', ''a''] 3 = Inr [2, 1, 0]"
    unfolding scenario_impl_def by code_simp
  have encoded: "OutputResult fmul (scenario_impl\<lparr>impl_S := - 1\<rparr>) [2, 1, 0] = Inr [2, 1, 0]"
    by (simp add: OutputResult_def float_of_uint32_def scenario_impl_def)
  have "snd (Compute fmul (scenario_impl\<lparr>impl_S := - 1\<rparr>) scenario_input) = Inr [2, 1, 0]"
    by (simp add: Compute_def scenario_input_def ComputeImpl_def counted encoded)
  with built show ?thesis
    by simp
qed

subsection \<open>The scenario of the specification\<close>

text \<open>
  Claim C2: for the scenario (string vocabulary \<open>a b a b\<close>, unigrams \<open>a\<close>, \<open>b\<close> with ids
  0, 1, bigram \<open>(a, b)\<close> with id 2, \<open>M = 1\<close>, \<open>N = 2\<close>, \<open>S = 0\<close>, \<open>all\<close> set,
  \<open>ngram_indexes = [0, 1, 2]\<close>, mode TF) the constructor builds the kernel, and the
  computation on the input \<open>a b a\<close> returns the output \<open>[2.0, 1.0, 1.0]\<close>.
\<close>

theorem scenario_output:
  "Ngram scenario_info = Inr scenario_impl \<and>
   ComputeImpl fmul scenario_impl (str_set scenario_impl) [''a'', ''b'', ''a''] 3
     = Inr [2, 1, 1] \<and>
   Compute fmul scenario_impl scenario_input = (scenario_impl, Inr [2, 1, 1])"
  by (simp add: scenario_built scenario_ComputeImpl scenario_Compute)

subsection \<open>Bounds of M and N in the list of counts\<close>

text \<open>
  Claim C10: whenever \<open>M\<close> or \<open>N\<close> exceeds the length of \<open>ngram_counts\<close>, the constructor
  fails with a configuration error, whatever the other attributes are.
\<close>

theorem M_N_inbounds_required:
  assumes "attr_M info = Some M" and "attr_N info = Some N"
    and "attr_ngram_counts info = Some counts"
    and "sint M > int (length counts) \<or> sint N > int (length counts)"
  shows "\<exists>e. Ngram info = Inl e \<and> configuration_error e"
proof -
  have "\<not> unat M \<le> length counts \<or> \<not> unat N \<le> length counts"
    if "0 < sint M" and "sint M \<le> sint N"
    using that assms(4) unat_eq_nat_sint [of M] unat_eq_nat_sint [of N] by auto
  then show ?thesis
    using assms(1-3)
    by (auto simp: Ngram_def Let_def split: option.splits if_splits sum.splits)
qed

theorem M_N_inbounds_required_witness:
  "sint (3 :: int64_t) > int (length [0, 2 :: int64_t]) \<and>
   (\<exists>e. Ngram (scenario_info\<lparr>attr_N := Some 3\<rparr>) = Inl e \<and> configuration_error e)"
  using M_N_inbounds_required [of "scenario_info\<lparr>attr_N := Some 3\<rparr>" 1 3 "[0, 2]"]
  by (simp add: scenario_info_def)

subsection \<open>Loading the pool\<close>

text \<open>Facts about \<open>Emplace\<close>, one run and the loop over the runs.\<close>

lemma length_chop [simp]: "length (chop n k xs) = n"
  by (induction n arbitrary: xs) simp_all

lemma chop_nth_Suc: "chop (Suc n) k xs ! Suc j = chop n k (drop k xs) ! j"
  by simp

lemma PoolFind_None: "PoolFind c its = None \<longleftrightarrow> its \<notin> set (map items c)"
  by (auto simp: PoolFind_def find_None_iff)

lemma PoolFind_Some: "PoolFind c its = Some e \<Longrightarrow> e \<in> set c \<and> items e = its"
  by (auto simp: PoolFind_def find_Some_iff)

lemma set_emplace:
  "set (emplace ngram_id its c) \<subseteq> insert \<lparr>Id = ngram_id, items = its\<rparr> (set c)"
  by (auto simp: emplace_def split: option.splits)

lemma keys_emplace:
  "map items (emplace ngram_id its c) =
     (if its \<in> set (map items c) then map items c else map items c @ [its])"
proof (cases "PoolFind c its")
  case None
  then have "its \<notin> set (map items c)"
    by (simp add: PoolFind_None del: set_map)
  with None show ?thesis
    by (simp add: emplace_def del: set_map)
next
  case (Some e)
  then have "its \<in> set (map items c)"
    using PoolFind_Some [OF Some] by auto
  with Some show ?thesis
    by (simp add: emplace_def del: set_map)
qed

lemma Emplace_id: "fst (Emplace first n k ngram_id c) = ngram_id + n"
  by (induction n arbitrary: first ngram_id c) simp_all

lemma Emplace_entries:
  "e \<in> set (snd (Emplace first n k ngram_id c)) \<Longrightarrow>
     e \<in> set c \<or> (\<exists>j<n. Id e = ngram_id + j \<and> items e = chop n k first ! j)"
proof (induction n arbitrary: first ngram_id c)
  case 0
  then show ?case by simp
next
  case (Suc n)
  from Suc.prems have "e \<in> set (snd (Emplace (drop k first) n k (Suc ngram_id) (emplace ngram_id (take k first) c)))"
    by simp
  from Suc.IH [OF this] consider
    (old) "e \<in> set (emplace ngram_id (take k first) c)"
  | (new) j where "j < n" "Id e = Suc ngram_id + j" "items e = chop n k (drop k first) ! j"
    by blast
  then show ?case
  proof cases
    case old
    with set_emplace [of ngram_id "take k first" c]
    have "e \<in> set c \<or> e = \<lparr>Id = ngram_id, items = take k first\<rparr>" by auto
    then show ?thesis
    proof
      assume "e \<in> set c" then show ?thesis by simp
    next
      assume "e = \<lparr>Id = ngram_id, items = take k first\<rparr>"
      then have "Id e = ngram_id + 0 \<and> items e = chop (Suc n) k first ! 0" by simp
      then show ?thesis by blast
    qed
  next
    case new
    then have "Suc j < Suc n \<and> Id e = ngram_id + Suc j \<and> items e = chop (Suc n) k first ! Suc j"
      by simp
    then show ?thesis by blast
  qed
qed

lemma Emplace_keys:
  "distinct (map items c) \<Longrightarrow>
     distinct (map items (snd (Emplace first n k ngram_id c))) \<and>
     set (map items (snd (Emplace first n k ngram_id c))) = set (map items c) \<union> set (chop n k first)"
proof (induction n arbitrary: first ngram_id c)
  case 0
  then show ?case by simp
next
  case (Suc n)
  let ?c = "emplace ngram_id (take k first) c"
  from Suc.prems have d: "distinct (map items ?c)"
    by (simp add: keys_emplace)
  have s: "set (map items ?c) = insert (take k first) (set (map items c))"
    by (auto simp: keys_emplace)
  from Suc.IH [OF d, of "drop k first" "Suc ngram_id"] s show ?case
    by auto
qed


lemma run_ngrams_chop:
  "run_ngrams cs xs i = chop (length (run_ngrams cs xs i)) (i + 1) (drop (run_start cs i) xs)"
  by (simp add: run_ngrams_def)

lemma load_run_invalid:
  assumes "\<not> run_valid cs xs i"
  shows "load_run all M N cs xs i (i + 1) ngram_id c = Inl (NgramCountsOutOfBounds (i + 1)) \<or>
         load_run all M N cs xs i (i + 1) ngram_id c = Inl (NotWholeNgrams (i + 1))"
  using assms
  by (auto simp: load_run_def run_valid_def run_start_def run_end_def Let_def)

lemma load_run_alt:
  "load_run all M N cs xs i k ngram_id c =
     (if \<not> (run_end cs xs i \<ge> run_start cs i \<and> run_end cs xs i \<le> length xs)
      then Inl (NgramCountsOutOfBounds k)
      else if run_end cs xs i - run_start cs i > 0 then
             if (run_end cs xs i - run_start cs i) mod k \<noteq> 0 then Inl (NotWholeNgrams k)
             else if retained all M N k
                  then insert_run xs (run_start cs i)
                         ((run_end cs xs i - run_start cs i) div k) k ngram_id c
                  else Inr (ngram_id + (run_end cs xs i - run_start cs i) div k, c)
           else Inr (ngram_id, c))"
  by (simp add: load_run_def run_start_def run_end_def Let_def)

lemma load_run_valid:
  assumes "run_valid cs xs i"
  shows "load_run all M N cs xs i (i + 1) ngram_id c =
           (if retained all M N (i + 1) \<and> run_ngrams cs xs i \<noteq> [] then
              (let r = Emplace (drop (run_start cs i) xs) (length (run_ngrams cs xs i)) (i + 1)
                         ngram_id c
               in if length c + length (run_ngrams cs xs i) = length (snd r) then Inr r
                  else Inl (DuplicateNgrams (i + 1)))
            else Inr (ngram_id + length (run_ngrams cs xs i), c))"
proof -
  define n where "n = run_end cs xs i - run_start cs i"
  have len: "length (run_ngrams cs xs i) = n div (i + 1)"
    by (simp add: run_ngrams_def n_def)
  from assms have m: "n mod (i + 1) = 0"
    and b: "run_start cs i \<le> run_end cs xs i" "run_end cs xs i \<le> length xs"
    by (simp_all add: run_valid_def n_def)
  have "n = n div (i + 1) * (i + 1)"
    using div_mult_mod_eq [of n "i + 1"] m by simp
  then have pos: "n div (i + 1) = 0 \<longleftrightarrow> n = 0"
    by (metis mult_is_0 div_0)
  then have e: "run_ngrams cs xs i = [] \<longleftrightarrow> n = 0"
    using len by (metis length_0_conv)
  show ?thesis
  proof (cases "n = 0")
    case True
    with e len b show ?thesis
      by (simp add: load_run_alt flip: n_def)
  next
    case False
    with e len b m show ?thesis
      by (simp add: load_run_alt insert_run_def Let_def flip: n_def)
  qed
qed


lemma ngrams_before_Suc:
  "ngrams_before cs xs (Suc i) = ngrams_before cs xs i @ run_ngrams cs xs i"
  by (simp add: ngrams_before_def)

lemma load_run_Inr:
  assumes "load_run all M N cs xs i (i + 1) ngram_id c = Inr r"
  shows "run_valid cs xs i"
    and "fst r = ngram_id + length (run_ngrams cs xs i)"
    and "\<forall>e\<in>set (snd r). e \<in> set c \<or>
           (\<exists>j<length (run_ngrams cs xs i).
              Id e = ngram_id + j \<and> items e = run_ngrams cs xs i ! j)"
    and "\<not> retained all M N (i + 1) \<Longrightarrow> snd r = c"
proof -
  show v: "run_valid cs xs i"
    using assms load_run_invalid [of cs xs i all M N ngram_id c] by auto
  note eq = load_run_valid [OF v, of all M N ngram_id c]
  show "\<not> retained all M N (i + 1) \<Longrightarrow> snd r = c"
    using assms eq by auto
  show "fst r = ngram_id + length (run_ngrams cs xs i)"
    using assms eq by (auto simp: Let_def Emplace_id split: if_splits)
  show "\<forall>e\<in>set (snd r). e \<in> set c \<or>
           (\<exists>j<length (run_ngrams cs xs i).
              Id e = ngram_id + j \<and> items e = run_ngrams cs xs i ! j)"
  proof
    fix e assume e: "e \<in> set (snd r)"
    show "e \<in> set c \<or>
           (\<exists>j<length (run_ngrams cs xs i).
              Id e = ngram_id + j \<and> items e = run_ngrams cs xs i ! j)"
    proof (cases "retained all M N (i + 1) \<and> run_ngrams cs xs i \<noteq> []")
      case True
      with assms eq
      have "r = Emplace (drop (run_start cs i) xs) (length (run_ngrams cs xs i)) (i + 1) ngram_id c"
        by (auto simp: Let_def split: if_splits)
      with e Emplace_entries [of e "drop (run_start cs i) xs" "length (run_ngrams cs xs i)" "i + 1" ngram_id c]
      show ?thesis
        using run_ngrams_chop [of cs xs i] by simp
    next
      case False
      with assms eq have "snd r = c" by auto
      with e show ?thesis by simp
    qed
  qed
qed

lemma load_pool_end:
  "\<not> i < length cs \<Longrightarrow> load_pool all M N cs xs i k ngram_id c = Inr (ngram_id, c)"
  by (simp add: load_pool.simps)

lemma load_pool_step:
  "i < length cs \<Longrightarrow>
     load_pool all M N cs xs i k ngram_id c =
       (case load_run all M N cs xs i k ngram_id c of
          Inl e \<Rightarrow> Inl e
        | Inr r \<Rightarrow> load_pool all M N cs xs (i + 1) (k + 1) (fst r) (snd r))"
  by (simp add: load_pool.simps [of all M N cs xs i])

lemma load_pool_ids:
  assumes "load_pool all M N cs xs i (i + 1) ngram_id c = Inr r"
    and "i \<le> length cs"
    and "ngram_id = length (ngrams_before cs xs i)"
    and "\<forall>e\<in>set c. Id e < ngram_id \<and> ngrams_before cs xs i ! Id e = items e"
  shows "fst r = length (all_ngrams cs xs) \<and>
         (\<forall>e\<in>set (snd r). Id e < length (all_ngrams cs xs) \<and>
                              all_ngrams cs xs ! Id e = items e)"
  using assms
proof (induction "length cs - i" arbitrary: i ngram_id c)
  case 0
  then have "i = length cs" by simp
  with "0.prems" show ?case
    by (auto simp: load_pool_end all_ngrams_def)
next
  case (Suc d)
  then have less: "i < length cs" by simp
  with Suc.prems(1) obtain r1 where
    r1: "load_run all M N cs xs i (i + 1) ngram_id c = Inr r1"
    and rest: "load_pool all M N cs xs (Suc i) (Suc i + 1) (fst r1) (snd r1) = Inr r"
    by (auto simp: load_pool_step split: sum.splits)
  note facts = load_run_Inr [OF r1]
  have id': "fst r1 = length (ngrams_before cs xs (Suc i))"
    using facts(2) Suc.prems(3) by (simp add: ngrams_before_Suc)
  have inv: "\<forall>e\<in>set (snd r1). Id e < fst r1 \<and> ngrams_before cs xs (Suc i) ! Id e = items e"
  proof
    fix e assume "e \<in> set (snd r1)"
    with facts(3) consider "e \<in> set c"
      | j where "j < length (run_ngrams cs xs i)" "Id e = ngram_id + j"
          "items e = run_ngrams cs xs i ! j"
      by blast
    then show "Id e < fst r1 \<and> ngrams_before cs xs (Suc i) ! Id e = items e"
    proof cases
      case 1
      with Suc.prems(3,4) facts(2) show ?thesis
        by (auto simp: ngrams_before_Suc nth_append)
    next
      case 2
      with Suc.prems(3) facts(2) show ?thesis
        by (simp add: ngrams_before_Suc nth_append)
    qed
  qed
  from Suc.hyps(2) less have d: "d = length cs - Suc i" by simp
  from Suc.hyps(1) [OF d rest _ id' inv] less show ?case by simp
qed


lemma chop_length_le: "w \<in> set (chop n k xs) \<Longrightarrow> length w \<le> k"
  by (induction n arbitrary: xs) auto

lemma chop_length_eq: "n * k \<le> length xs \<Longrightarrow> w \<in> set (chop n k xs) \<Longrightarrow> length w = k"
proof (induction n arbitrary: xs)
  case 0
  then show ?case by simp
next
  case (Suc n)
  from Suc.prems(1) have "k \<le> length xs" and "n * k \<le> length (drop k xs)"
    by simp_all
  with Suc.IH [of "drop k xs"] Suc.prems(2) show ?case
    by auto
qed

lemma run_ngrams_length:
  assumes "run_valid cs xs i" and "w \<in> set (run_ngrams cs xs i)"
  shows "length w = i + 1"
proof -
  define n where "n = run_end cs xs i - run_start cs i"
  from assms(1) have m: "n mod (i + 1) = 0"
    and b: "run_start cs i \<le> run_end cs xs i" "run_end cs xs i \<le> length xs"
    by (simp_all add: run_valid_def n_def)
  have "n div (i + 1) * (i + 1) = n"
    using div_mult_mod_eq [of n "i + 1"] m by simp
  moreover have "n \<le> length (drop (run_start cs i) xs)"
    using b by (simp add: n_def)
  ultimately have "n div (i + 1) * (i + 1) \<le> length (drop (run_start cs i) xs)"
    by simp
  from chop_length_eq [OF this] assms(2) show ?thesis
    by (simp add: run_ngrams_def n_def)
qed

lemma Emplace_size:
  assumes "distinct (map items c)"
    and "set (map items c) \<inter> set (chop n k first) = {}"
  shows "length c + n = length (snd (Emplace first n k ngram_id c)) \<longleftrightarrow> distinct (chop n k first)"
proof -
  let ?c = "snd (Emplace first n k ngram_id c)"
  from Emplace_keys [OF assms(1), of first n k ngram_id]
  have d: "distinct (map items ?c)"
    and s: "set (map items ?c) = set (map items c) \<union> set (chop n k first)"
    by simp_all
  have "length ?c = card (set (map items ?c))"
    using distinct_card [OF d] by simp
  also have "\<dots> = card (set (map items c)) + card (set (chop n k first))"
    unfolding s using assms(2) by (simp add: card_Un_disjoint)
  also have "card (set (map items c)) = length c"
    using distinct_card [OF assms(1)] by simp
  finally have "length ?c = length c + card (set (chop n k first))" .
  moreover have "card (set (chop n k first)) = n \<longleftrightarrow> distinct (chop n k first)"
    using card_distinct [of "chop n k first"] distinct_card [of "chop n k first"] by auto
  ultimately show ?thesis
    by auto
qed

lemma load_run_duplicates:
  assumes "run_valid cs xs i"
    and "distinct (map items c)"
    and "\<forall>e\<in>set c. length (items e) \<le> i"
  shows "load_run all M N cs xs i (i + 1) ngram_id c = Inl err \<longleftrightarrow>
           err = DuplicateNgrams (i + 1) \<and> retained all M N (i + 1) \<and>
           \<not> distinct (run_ngrams cs xs i)"
proof -
  let ?R = "run_ngrams cs xs i"
  have disj: "set (map items c) \<inter> set ?R = {}"
  proof -
    have "w \<notin> set ?R" if "w \<in> set (map items c)" for w
    proof
      assume "w \<in> set ?R"
      then have "length w = i + 1"
        using run_ngrams_length [OF assms(1)] by simp
      moreover from that assms(3) have "length w \<le> i"
        by auto
      ultimately show False by simp
    qed
    then show ?thesis by blast
  qed
  have size: "length c + length ?R
        = length (snd (Emplace (drop (run_start cs i) xs) (length ?R) (i + 1) ngram_id c))
      \<longleftrightarrow> distinct ?R"
    using Emplace_size [OF assms(2), of "length ?R" "i + 1" "drop (run_start cs i) xs" ngram_id]
      disj run_ngrams_chop [of cs xs i] by simp
  show ?thesis
    unfolding load_run_valid [OF assms(1)] using size
    by (auto simp: Let_def)
qed

lemma load_run_keys:
  assumes "load_run all M N cs xs i (i + 1) ngram_id c = Inr r"
    and "distinct (map items c)"
    and "\<forall>e\<in>set c. length (items e) \<le> i"
  shows "distinct (map items (snd r))" and "\<forall>e\<in>set (snd r). length (items e) \<le> Suc i"
proof -
  note facts = load_run_Inr [OF assms(1)]
  note eq = load_run_valid [OF facts(1), of all M N ngram_id c]
  show "distinct (map items (snd r))"
    using assms(1,2) eq Emplace_keys [OF assms(2)]
    by (auto simp: Let_def split: if_splits)
  show "\<forall>e\<in>set (snd r). length (items e) \<le> Suc i"
  proof
    fix e assume "e \<in> set (snd r)"
    with facts(3) consider "e \<in> set c"
      | j where "j < length (run_ngrams cs xs i)" "items e = run_ngrams cs xs i ! j"
      by blast
    then show "length (items e) \<le> Suc i"
    proof cases
      case 1
      with assms(3) show ?thesis by force
    next
      case 2
      then have "items e \<in> set (run_ngrams cs xs i)" by simp
      then show ?thesis
        using chop_length_le [of "items e"] by (simp add: run_ngrams_def) 
    qed
  qed
qed

lemma load_run_duplicates_sizes:
  assumes "run_valid cs xs i"
    and "distinct (map items c)"
    and "\<forall>e\<in>set c. length (items e) \<noteq> i + 1"
  shows "load_run all M N cs xs i (i + 1) ngram_id c = Inl err \<longleftrightarrow>
           err = DuplicateNgrams (i + 1) \<and> retained all M N (i + 1) \<and>
           \<not> distinct (run_ngrams cs xs i)"
proof -
  let ?R = "run_ngrams cs xs i"
  have disj: "set (map items c) \<inter> set ?R = {}"
  proof -
    have "w \<notin> set ?R" if "w \<in> set (map items c)" for w
    proof
      assume "w \<in> set ?R"
      then have "length w = i + 1"
        using run_ngrams_length [OF assms(1)] by simp
      moreover from that assms(3) have "length w \<noteq> i + 1"
        by auto
      ultimately show False by simp
    qed
    then show ?thesis by blast
  qed
  have size: "length c + length ?R
        = length (snd (Emplace (drop (run_start cs i) xs) (length ?R) (i + 1) ngram_id c))
      \<longleftrightarrow> distinct ?R"
    using Emplace_size [OF assms(2), of "length ?R" "i + 1" "drop (run_start cs i) xs" ngram_id]
      disj run_ngrams_chop [of cs xs i] by simp
  show ?thesis
    unfolding load_run_valid [OF assms(1)] using size
    by (auto simp: Let_def)
qed

lemma load_pool_duplicate_iff:
  assumes "distinct (map items c)"
    and "\<forall>e\<in>set c. length (items e) \<le> i"
  shows "load_pool all M N cs xs i (i + 1) ngram_id c = Inl (DuplicateNgrams k) \<longleftrightarrow>
         (\<exists>j. i \<le> j \<and> j < length cs \<and> k = j + 1 \<and> run_valid cs xs j \<and>
               retained all M N (j + 1) \<and> \<not> distinct (run_ngrams cs xs j) \<and>
               (\<forall>l. i \<le> l \<and> l < j \<longrightarrow>
                    run_valid cs xs l \<and>
                    (retained all M N (l + 1) \<longrightarrow> distinct (run_ngrams cs xs l))))"
    (is "?L i ngram_id c \<longleftrightarrow> (\<exists>j. ?R i j)")
  using assms
proof (induction "length cs - i" arbitrary: i ngram_id c)
  case 0
  then have "\<not> i < length cs" by simp
  then show ?case
    by (auto simp: load_pool_end)
next
  case (Suc d)
  then have less: "i < length cs" by simp
  from Suc.hyps(2) less have d: "d = length cs - Suc i" by simp
  let ?clean = "\<lambda>l. run_valid cs xs l \<and>
                    (retained all M N (l + 1) \<longrightarrow> distinct (run_ngrams cs xs l))"
  show ?case
  proof (cases "?clean i")
    case True
    then have valid: "run_valid cs xs i" by simp
    note dup = load_run_duplicates [OF valid Suc.prems, of all M N ngram_id]
    obtain r where r: "load_run all M N cs xs i (i + 1) ngram_id c = Inr r"
    proof (cases "load_run all M N cs xs i (i + 1) ngram_id c")
      case (Inl err)
      with dup [of err] True show ?thesis by simp
    next
      case (Inr r)
      with that show ?thesis .
    qed
    note keys = load_run_keys [OF r Suc.prems]
    have "?L i ngram_id c \<longleftrightarrow> ?L (Suc i) (fst r) (snd r)"
      using r less by (simp add: load_pool_step)
    also have "\<dots> \<longleftrightarrow> (\<exists>j. ?R (Suc i) j)"
      using Suc.hyps(1) [OF d keys] by simp
    also have "\<dots> \<longleftrightarrow> (\<exists>j. ?R i j)"
    proof
      assume "\<exists>j. ?R (Suc i) j"
      then obtain j where j: "?R (Suc i) j" ..
      have "?clean l" if "i \<le> l \<and> l < j" for l
      proof (cases "l = i")
        case True
        with \<open>?clean i\<close> show ?thesis by simp
      next
        case False
        with that have "Suc i \<le> l \<and> l < j" by simp
        with j show ?thesis by blast
      qed
      with j have "?R i j" by simp
      then show "\<exists>j. ?R i j" ..
    next
      assume "\<exists>j. ?R i j"
      then obtain j where j: "?R i j" ..
      have "j \<noteq> i"
        using j True by auto
      with j have "Suc i \<le> j" by simp
      moreover have "?clean l" if "Suc i \<le> l \<and> l < j" for l
        using j that by simp
      ultimately have "?R (Suc i) j"
        using j by simp
      then show "\<exists>j. ?R (Suc i) j" ..
    qed
    finally show ?thesis .
  next
    case False
    show ?thesis
    proof (cases "run_valid cs xs i")
      case True
      with False have here: "retained all M N (i + 1)" "\<not> distinct (run_ngrams cs xs i)"
        by simp_all
      with load_run_duplicates [OF True Suc.prems, of all M N ngram_id "DuplicateNgrams (i + 1)"]
      have "load_run all M N cs xs i (i + 1) ngram_id c = Inl (DuplicateNgrams (i + 1))"
        by simp
      with less have L: "?L i ngram_id c \<longleftrightarrow> k = i + 1"
        by (auto simp: load_pool_step)
      have "(\<exists>j. ?R i j) \<longleftrightarrow> k = i + 1"
      proof
        assume "\<exists>j. ?R i j"
        then obtain j where j: "?R i j" ..
        have "j = i"
        proof (rule ccontr)
          assume "j \<noteq> i"
          with j have "i \<le> i \<and> i < j" by simp
          with j have "?clean i" by blast
          with False show False by simp
        qed
        with j show "k = i + 1" by simp
      next
        assume "k = i + 1"
        with True here less have "?R i i" by auto
        then show "\<exists>j. ?R i j" ..
      qed
      with L show ?thesis by simp
    next
      case invalid: False
      from load_run_invalid [OF invalid, of all M N ngram_id c] less
      have "\<not> ?L i ngram_id c"
        by (auto simp: load_pool_step)
      moreover have "\<not> (\<exists>j. ?R i j)"
      proof
        assume "\<exists>j. ?R i j"
        then obtain j where j: "?R i j" ..
        show False
        proof (cases "j = i")
          case True
          with j invalid show False by simp
        next
          case False
          with j have "i \<le> i \<and> i < j" by simp
          with j have "?clean i" by blast
          with invalid show False by simp
        qed
      qed
      ultimately show ?thesis by simp
    qed
  qed
qed



lemma Ngram_pool_case:
  "case Ngram info of
     Inl e \<Rightarrow> True
   | Inr impl \<Rightarrow>
       (case attr_pool_strings info of
          Some strings \<Rightarrow>
            int_set impl = [] \<and> pool_strings impl = strings \<and>
            (\<exists>n. load_pool (impl_all impl) (unat (impl_M impl)) (unat (impl_N impl))
                   (ngram_counts impl) strings 0 1 0 [] = Inr (n, str_set impl))
        | None \<Rightarrow>
            str_set impl = [] \<and> pool_strings impl = [] \<and>
            (\<exists>ints n. attr_pool_int64s info = Some ints \<and>
               load_pool (impl_all impl) (unat (impl_M impl)) (unat (impl_N impl))
                 (ngram_counts impl) ints 0 1 0 [] = Inr (n, int_set impl)))"
  by (auto simp: Ngram_def Let_def split: option.split sum.split)

lemma Ngram_str_pool:
  assumes "Ngram info = Inr impl" and "attr_pool_strings info = Some strings"
  shows "\<exists>n. load_pool (impl_all impl) (unat (impl_M impl)) (unat (impl_N impl))
                   (ngram_counts impl) strings 0 1 0 [] = Inr (n, str_set impl)"
  using Ngram_pool_case [of info] assms by simp

lemma Ngram_int_pool:
  assumes "Ngram info = Inr impl" and "attr_pool_strings info = None"
    and "attr_pool_int64s info = Some ints"
  shows "\<exists>n. load_pool (impl_all impl) (unat (impl_M impl)) (unat (impl_N impl))
                   (ngram_counts impl) ints 0 1 0 [] = Inr (n, int_set impl)"
  using Ngram_pool_case [of info] assms by simp

lemma pool_ids:
  assumes "load_pool all M N cs xs 0 1 0 [] = Inr (n, c)"
  shows "\<forall>e\<in>set c. Id e < length (all_ngrams cs xs) \<and> all_ngrams cs xs ! Id e = items e"
  using load_pool_ids [of all M N cs xs 0 0 "[]" "(n, c)"] assms
  by (simp add: ngrams_before_def)


subsection \<open>Ids count every n-gram of the vocabulary\<close>

text \<open>
  Claim C3: the id counter advances by one per n-gram of the vocabulary whether the n-gram
  is loaded or not. A run whose size is not retained passes the container on unchanged and
  advances the counter by \<open>(end - start) / k\<close>; and in every accepted configuration the id
  of each pool entry is the position of its n-gram among all n-grams of the vocabulary,
  of all sizes.
\<close>

theorem pool_ids_are_ordinal_positions:
  assumes "Ngram info = Inr impl"
  shows "(\<forall>strings. attr_pool_strings info = Some strings \<longrightarrow>
            (\<forall>e\<in>set (str_set impl).
               Id e < length (all_ngrams (ngram_counts impl) strings) \<and>
               all_ngrams (ngram_counts impl) strings ! Id e = items e)) \<and>
         (\<forall>ints. attr_pool_strings info = None \<longrightarrow> attr_pool_int64s info = Some ints \<longrightarrow>
            (\<forall>e\<in>set (int_set impl).
               Id e < length (all_ngrams (ngram_counts impl) ints) \<and>
               all_ngrams (ngram_counts impl) ints ! Id e = items e)) \<and>
         (\<forall>all M N counts (vocabulary :: string list) i ngram_id c r.
            \<not> retained all M N (i + 1) \<longrightarrow>
            load_run all M N counts vocabulary i (i + 1) ngram_id c = Inr r \<longrightarrow>
            r = (ngram_id +
                   (run_end counts vocabulary i - run_start counts i) div (i + 1), c))"
proof (intro conjI allI impI)
  fix strings assume "attr_pool_strings info = Some strings"
  from Ngram_str_pool [OF assms this] pool_ids
  show "\<forall>e\<in>set (str_set impl).
               Id e < length (all_ngrams (ngram_counts impl) strings) \<and>
               all_ngrams (ngram_counts impl) strings ! Id e = items e"
    by blast
next
  fix ints assume "attr_pool_strings info = None" "attr_pool_int64s info = Some ints"
  from Ngram_int_pool [OF assms this] pool_ids
  show "\<forall>e\<in>set (int_set impl).
               Id e < length (all_ngrams (ngram_counts impl) ints) \<and>
               all_ngrams (ngram_counts impl) ints ! Id e = items e"
    by blast
next
  fix all M N counts and vocabulary :: "string list" and i ngram_id c r
  assume n: "\<not> retained all M N (i + 1)"
    and r: "load_run all M N counts vocabulary i (i + 1) ngram_id c = Inr r"
  from load_run_Inr(2,4) [OF r] n
  show "r = (ngram_id + (run_end counts vocabulary i - run_start counts i) div (i + 1), c)"
    by (simp add: run_ngrams_def prod_eq_iff)
qed


theorem pool_ids_are_ordinal_positions_witness:
  "Ngram (scenario_info\<lparr>attr_all := Some 0\<rparr>)
     = Inr (scenario_impl\<lparr>impl_all := False,
                           str_set := [\<lparr>Id = 2, items = [''a'', ''b'']\<rparr>]\<rparr>) \<and>
   all_ngrams [0, 2] [''a'', ''b'', ''a'', ''b''] = [[''a''], [''b''], [''a'', ''b'']] \<and>
   all_ngrams [0, 2] [''a'', ''b'', ''a'', ''b''] ! 2 = [''a'', ''b''] \<and>
   \<not> retained False 1 2 (0 + 1) \<and>
   load_run False 1 2 [0, 2] [''a'', ''b'', ''a'', ''b''] 0 (0 + 1) 0 [] = Inr (2, [])"
proof -
  have built:
    "Ngram (scenario_info\<lparr>attr_all := Some 0\<rparr>)
       = Inr (scenario_impl\<lparr>impl_all := False,
                             str_set := [\<lparr>Id = 2, items = [''a'', ''b'']\<rparr>]\<rparr>)"
    unfolding scenario_info_def scenario_impl_def by code_simp
  have all: "all_ngrams [0, 2] [''a'', ''b'', ''a'', ''b''] = [[''a''], [''b''], [''a'', ''b'']]"
    by code_simp
  have skipped: "\<not> retained False 1 2 (0 + 1)"
    by (simp add: retained_def)
  have run: "load_run False 1 2 [0, 2] [''a'', ''b'', ''a'', ''b''] 0 (0 + 1) 0 [] = Inr (2, [])"
    by code_simp
  from pool_ids_are_ordinal_positions [OF built] built all skipped run show ?thesis
    by simp
qed

subsection \<open>Duplicates\<close>

text \<open>
  Claim C4, as amended: the runs are checked in the order of their sizes and the first check
  that fails is the one reported. The loading of the pool fails with the duplicate error
  for the size \<open>k\<close> if and only if the run of size \<open>k\<close> passes the checks of its bounds, is
  retained and holds two n-grams that are equal item by item, while every run of a smaller
  size passes the checks of its bounds and, where retained, repeats no n-gram. Entries of
  other sizes never raise the error: whatever entries of other sizes the container holds,
  the iteration for a run that passes the checks of its bounds fails with the duplicate
  error exactly when the run is retained and repeats an n-gram of its own.
\<close>

theorem duplicate_ngrams_detected:
  "(load_pool all M N counts vocabulary 0 1 0 [] = Inl (DuplicateNgrams k) \<longleftrightarrow>
      (\<exists>i<length counts. k = i + 1 \<and> run_valid counts vocabulary i \<and>
          retained all M N (i + 1) \<and> \<not> distinct (run_ngrams counts vocabulary i) \<and>
          (\<forall>j<i. run_valid counts vocabulary j \<and>
                  (retained all M N (j + 1) \<longrightarrow> distinct (run_ngrams counts vocabulary j))))) \<and>
   (run_valid counts vocabulary i \<longrightarrow> distinct (map items c) \<longrightarrow>
    (\<forall>e\<in>set c. length (items e) \<noteq> i + 1) \<longrightarrow>
      (load_run all M N counts vocabulary i (i + 1) ngram_id c = Inl (DuplicateNgrams (i + 1))
         \<longleftrightarrow> retained all M N (i + 1) \<and> \<not> distinct (run_ngrams counts vocabulary i)))"
proof (intro conjI impI)
  show "load_pool all M N counts vocabulary 0 1 0 [] = Inl (DuplicateNgrams k) \<longleftrightarrow>
      (\<exists>i<length counts. k = i + 1 \<and> run_valid counts vocabulary i \<and>
          retained all M N (i + 1) \<and> \<not> distinct (run_ngrams counts vocabulary i) \<and>
          (\<forall>j<i. run_valid counts vocabulary j \<and>
                  (retained all M N (j + 1) \<longrightarrow> distinct (run_ngrams counts vocabulary j))))"
    using load_pool_duplicate_iff [of "[]" 0 all M N counts vocabulary 0 k]
    by auto
next
  assume "run_valid counts vocabulary i" and "distinct (map items c)"
    and "\<forall>e\<in>set c. length (items e) \<noteq> i + 1"
  from load_run_duplicates_sizes [OF this, of all M N ngram_id "DuplicateNgrams (i + 1)"]
  show "load_run all M N counts vocabulary i (i + 1) ngram_id c = Inl (DuplicateNgrams (i + 1))
         \<longleftrightarrow> retained all M N (i + 1) \<and> \<not> distinct (run_ngrams counts vocabulary i)"
    by simp
qed


theorem duplicate_ngrams_detected_witness:
  "load_pool True 1 2 [0, 2] [''a'', ''a'', ''a'', ''b''] 0 1 0 [] = Inl (DuplicateNgrams 1) \<and>
   Ngram (scenario_info\<lparr>attr_pool_strings := Some [''a'', ''a'', ''a'', ''b'']\<rparr>)
     = Inl (DuplicateNgrams 1) \<and>
   run_valid [0, 2] [''a'', ''a'', ''a'', ''b''] 0 \<and>
   retained True 1 2 (0 + 1) \<and>
   \<not> distinct (run_ngrams [0, 2] [''a'', ''a'', ''a'', ''b''] 0) \<and>
   run_valid [0, 2] [''a'', ''b'', ''a'', ''b''] 1 \<and>
   distinct (map items [\<lparr>Id = 0, items = [''a'']\<rparr>, \<lparr>Id = 1, items = [''b'']\<rparr>]) \<and>
   list_all (\<lambda>e. length (items e) \<noteq> 1 + 1)
     [\<lparr>Id = 0, items = [''a'']\<rparr>, \<lparr>Id = 1, items = [''b'']\<rparr>] \<and>
   retained True 1 2 (1 + 1) \<and>
   distinct (run_ngrams [0, 2] [''a'', ''b'', ''a'', ''b''] 1) \<and>
   load_run True 1 2 [0, 2] [''a'', ''b'', ''a'', ''b''] 1 (1 + 1) 2
     [\<lparr>Id = 0, items = [''a'']\<rparr>, \<lparr>Id = 1, items = [''b'']\<rparr>]
     = Inr (3, str_set scenario_impl)"
proof -
  let ?c = "[\<lparr>Id = 0, items = [''a'']\<rparr>, \<lparr>Id = 1, items = [''b'']\<rparr>]"
  have failed:
    "load_pool True 1 2 [0, 2] [''a'', ''a'', ''a'', ''b''] 0 1 0 [] = Inl (DuplicateNgrams 1)"
    by code_simp
  have rejected:
    "Ngram (scenario_info\<lparr>attr_pool_strings := Some [''a'', ''a'', ''a'', ''b'']\<rparr>)
       = Inl (DuplicateNgrams 1)"
    unfolding scenario_info_def by code_simp
  have valid: "run_valid [0, 2] [''a'', ''a'', ''a'', ''b''] 0"
    "run_valid [0, 2] [''a'', ''b'', ''a'', ''b''] 1"
    by code_simp+
  have kept: "retained True 1 2 (0 + 1)" "retained True 1 2 (1 + 1)"
    by (simp_all add: retained_def)
  have twice: "\<not> distinct (run_ngrams [0, 2] [''a'', ''a'', ''a'', ''b''] 0)"
    by code_simp
  have once: "distinct (run_ngrams [0, 2] [''a'', ''b'', ''a'', ''b''] 1)"
    by code_simp
  have keys: "distinct (map items ?c)"
    by simp
  have sizes: "\<forall>e\<in>set ?c. length (items e) \<noteq> 1 + 1"
    by simp
  have loaded:
    "load_run True 1 2 [0, 2] [''a'', ''b'', ''a'', ''b''] 1 (1 + 1) 2 ?c
       = Inr (3, str_set scenario_impl)"
    unfolding scenario_impl_def by code_simp
  from duplicate_ngrams_detected
         [of True 1 2 "[0, 2]" "[''a'', ''a'', ''a'', ''b'']" 1 0 "[]" 0]
       duplicate_ngrams_detected
         [of True 1 2 "[0, 2]" "[''a'', ''b'', ''a'', ''b'']" 1 1 ?c 2]
    failed rejected valid kept twice once keys sizes loaded
  show ?thesis
    by simp
qed

text \<open>
  Claim C4 as stated, for every vocabulary, does not hold: the run of size 3 below is
  retained and repeats the trigram \<open>(x, y, z)\<close>, but the run of size 2 before it has one
  item, and the constructor fails with the error of lines 349-350, not with the duplicate
  error.
\<close>

theorem duplicate_behind_malformed_run:
  "retained True 1 3 (2 + 1) \<and>
   \<not> distinct (run_ngrams [0, 3, 4]
        [''a'', ''b'', ''c'', ''d'', ''x'', ''y'', ''z'', ''x'', ''y'', ''z''] 2) \<and>
   load_pool True 1 3 [0, 3, 4]
     [''a'', ''b'', ''c'', ''d'', ''x'', ''y'', ''z'', ''x'', ''y'', ''z''] 0 1 0 []
     = Inl (NotWholeNgrams 2) \<and>
   Ngram malformed_run_info = Inl (NotWholeNgrams 2) \<and>
   \<not> ((\<exists>k. load_pool True 1 3 [0, 3, 4]
              [''a'', ''b'', ''c'', ''d'', ''x'', ''y'', ''z'', ''x'', ''y'', ''z''] 0 1 0 []
              = Inl (DuplicateNgrams k)) \<longleftrightarrow>
        (\<exists>i<length [0, 3, 4 :: int64_t]. retained True 1 3 (i + 1) \<and>
            \<not> distinct (run_ngrams [0, 3, 4]
                 [''a'', ''b'', ''c'', ''d'', ''x'', ''y'', ''z'', ''x'', ''y'', ''z''] i)))"
proof -
  let ?V = "[''a'', ''b'', ''c'', ''d'', ''x'', ''y'', ''z'', ''x'', ''y'', ''z'']"
  have kept: "retained True 1 3 (2 + 1)"
    by (simp add: retained_def)
  have twice: "\<not> distinct (run_ngrams [0, 3, 4] ?V 2)"
    by code_simp
  have failed: "load_pool True 1 3 [0, 3, 4] ?V 0 1 0 [] = Inl (NotWholeNgrams 2)"
    by code_simp
  have rejected: "Ngram malformed_run_info = Inl (NotWholeNgrams 2)"
    unfolding malformed_run_info_def by code_simp
  from failed have no: "\<not> (\<exists>k. load_pool True 1 3 [0, 3, 4] ?V 0 1 0 [] = Inl (DuplicateNgrams k))"
    by simp
  from kept twice have yes: "\<exists>i<length [0, 3, 4 :: int64_t]. retained True 1 3 (i + 1) \<and>
            \<not> distinct (run_ngrams [0, 3, 4] ?V i)"
    by (intro exI [of _ 2]) simp
  from kept twice failed rejected no yes show ?thesis
    by blast
qed

subsection \<open>Growth of the counters\<close>

text \<open>
  As long as the sum of all counters stays below \<open>2 ^ 32\<close> no counter wraps, and every
  pass leaves each counter at least as large as it found it.
\<close>

lemma unat_le_total_count: "k < length f \<Longrightarrow> unat (f ! k) \<le> total_count f"
  unfolding total_count_def
proof (induction f arbitrary: k)
  case Nil
  then show ?case by simp
next
  case (Cons a f)
  then show ?case
    by (cases k) (simp_all add: trans_le_add2)
qed

lemma total_count_update:
  assumes "k < length f"
  shows "total_count (f[k := x]) + unat (f ! k) = total_count f + unat x"
  using assms unfolding total_count_def
proof (induction f arbitrary: k)
  case Nil
  then show ?case by simp
next
  case (Cons a f)
  show ?case
  proof (cases k)
    case 0
    then show ?thesis by simp
  next
    case (Suc j)
    with Cons.prems have "j < length f" by simp
    from Cons.IH [OF this] Suc show ?thesis by simp
  qed
qed

lemma total_count_replicate [simp]: "total_count (replicate n 0) = 0"
  by (induction n) (simp_all add: total_count_def)

lemma grows_by_refl: "grows_by f f n"
  by (simp add: grows_by_def list_all2_refl)

lemma grows_by_trans:
  assumes "grows_by f g a" and "grows_by g h b"
  shows "grows_by f h (a + b)"
proof -
  from assms have "list_all2 (\<le>) f h"
    unfolding grows_by_def
    by (auto intro: list_all2_trans [of "(\<le>)" "(\<le>)" "(\<le>)" f g h])
  with assms show ?thesis
    by (simp add: grows_by_def)
qed

lemma grows_by_mono: "grows_by f g a \<Longrightarrow> a \<le> b \<Longrightarrow> grows_by f g b"
  by (simp add: grows_by_def)

lemma IncrementCount_grows:
  assumes "IncrementCount impl ngram_id f = Inr f'"
    and "total_count f + 1 < 2 ^ 32"
  shows "grows_by f f' 1"
proof -
  define k where "k = unat (ngram_indexes impl ! ngram_id)"
  from assms(1) have k: "k < length f" and f': "f' = f[k := f ! k + 1]"
    by (auto simp: IncrementCount_def Let_def k_def split: if_splits)
  have "unat (f ! k) + 1 < 2 ^ 32"
    using unat_le_total_count [OF k] assms(2) by simp
  then have u: "unat (f ! k + 1) = unat (f ! k) + 1"
    using unat_add_lem [of "f ! k" 1] by simp
  then have le: "f ! k \<le> f ! k + 1"
    by (simp add: word_le_nat_alt)
  have "list_all2 (\<le>) f f'"
    unfolding f' list_all2_conv_all_nth using le k by (auto simp: nth_list_update)
  moreover have "total_count f' = total_count f + 1"
    using total_count_update [OF k, of "f ! k + 1"] u by (simp add: f')
  ultimately show ?thesis
    by (simp add: grows_by_def)
qed

lemma record_hit_grows:
  assumes "record_hit impl c sample f = Inr f'"
    and "total_count f + 1 < 2 ^ 32"
  shows "grows_by f f' 1"
proof (cases "PoolFind c sample")
  case None
  with assms(1) show ?thesis
    by (simp add: record_hit_def grows_by_refl)
next
  case (Some hit)
  with assms(1) have "IncrementCount impl (Id hit) f = Inr f'"
    by (simp add: record_hit_def)
  from IncrementCount_grows [OF this assms(2)] show ?thesis .
qed

lemma ngram_loop_grows:
  assumes "ngram_loop impl c inp e N st si ni it sm f = Inr f'"
    and "total_count f + nat (N + 1 - ni) < 2 ^ 32"
  shows "grows_by f f' (nat (N + 1 - ni))"
  using assms
proof (induction impl c inp e N st si ni it sm f rule: ngram_loop.induct)
  case (1 impl c inp e N st si ni it sm f)
  show ?case
  proof (cases "ni \<le> N \<and> it < e")
    case False
    with "1.prems"(1) have "f' = f"
      by (simp add: ngram_loop.simps [of impl c inp e N st si ni])
    then show ?thesis
      by (simp add: grows_by_refl)
  next
    case True
    with "1.prems"(1) obtain v f1 where
      v: "read_item inp it = Inr v"
      and h: "(if ni \<ge> st then record_hit impl c (sm @ [v]) f else Inr f) = Inr f1"
      and n: "ni \<noteq> INT_MAX"
      and r: "ngram_loop impl c inp e N st si (ni + 1) (it + si) (sm @ [v]) f1 = Inr f'"
      by (simp add: ngram_loop.simps [of impl c inp e N st si ni] split: sum.splits if_splits)
    from True "1.prems"(2) have room: "total_count f + 1 < 2 ^ 32"
      by linarith
    have g1: "grows_by f f1 1"
    proof (cases "ni \<ge> st")
      case True
      with h have "record_hit impl c (sm @ [v]) f = Inr f1" by simp
      from record_hit_grows [OF this room] show ?thesis .
    next
      case False
      with h show ?thesis by (simp add: grows_by_refl)
    qed
    have split: "nat (N + 1 - ni) = 1 + nat (N + 1 - (ni + 1))"
      using True by linarith
    from g1 "1.prems"(2) have "total_count f1 + nat (N + 1 - (ni + 1)) < 2 ^ 32"
      unfolding grows_by_def split by linarith
    from "1.IH" [OF True v h n r this] have "grows_by f1 f' (nat (N + 1 - (ni + 1)))" .
    from grows_by_trans [OF g1 this] show ?thesis
      unfolding split .
  qed
qed

lemma unigram_loop_grows:
  assumes "unigram_loop impl c inp e p f = Inr f'"
    and "total_count f + nat (e - p) < 2 ^ 32"
  shows "grows_by f f' (nat (e - p))"
  using assms
proof (induction impl c inp e p f rule: unigram_loop.induct)
  case (1 impl c inp e p f)
  show ?case
  proof (cases "p < e")
    case False
    with "1.prems"(1) have "f' = f"
      by (simp add: unigram_loop.simps [of impl c inp e p])
    then show ?thesis
      by (simp add: grows_by_refl)
  next
    case True
    with "1.prems"(1) obtain v f1 where
      v: "read_item inp p = Inr v"
      and h: "record_hit impl c [v] f = Inr f1"
      and r: "unigram_loop impl c inp e (p + 1) f1 = Inr f'"
      by (simp add: unigram_loop.simps [of impl c inp e p] split: sum.splits)
    from True "1.prems"(2) have room: "total_count f + 1 < 2 ^ 32"
      by linarith
    note g1 = record_hit_grows [OF h room]
    have split: "nat (e - p) = 1 + nat (e - (p + 1))"
      using True by linarith
    from g1 "1.prems"(2) have "total_count f1 + nat (e - (p + 1)) < 2 ^ 32"
      unfolding grows_by_def split by linarith
    from "1.IH" [OF True v h r this] have "grows_by f1 f' (nat (e - (p + 1)))" .
    from grows_by_trans [OF g1 this] show ?thesis
      unfolding split .
  qed
qed

lemma start_loop_grows:
  assumes "start_loop impl c inp e N st si p f = Inr f'"
    and "total_count f + nat (e - p) * nat N < 2 ^ 32"
  shows "grows_by f f' (nat (e - p) * nat N)"
  using assms
proof (induction impl c inp e N st si p f rule: start_loop.induct)
  case (1 impl c inp e N st si p f)
  let ?ok = "int64_range (st - 1) \<and> int64_range (si * (st - 1))"
  show ?case
  proof (cases "p < e \<and> ?ok \<and> \<not> p + si * (st - 1) \<ge> e")
    case False
    with "1.prems"(1) have "f' = f"
      by (auto simp: start_loop.simps [of impl c inp e N st si p] Let_def split: if_splits)
    then show ?thesis
      by (simp add: grows_by_refl)
  next
    case True
    with "1.prems"(1) obtain f1 where
      h: "ngram_loop impl c inp e N st si 1 p [] f = Inr f1"
      and r: "start_loop impl c inp e N st si (p + 1) f1 = Inr f'"
      by (simp add: start_loop.simps [of impl c inp e N st si p] Let_def split: sum.splits)
    have split: "nat (e - p) * nat N = nat N + nat (e - (p + 1)) * nat N"
    proof -
      from True have "nat (e - p) = Suc (nat (e - (p + 1)))" by linarith
      then show ?thesis by simp
    qed
    from "1.prems"(2) have room: "total_count f + nat (N + 1 - 1) < 2 ^ 32"
      unfolding split by simp
    from ngram_loop_grows [OF h room] have g1: "grows_by f f1 (nat N)"
      by simp
    from g1 "1.prems"(2) have room': "total_count f1 + nat (e - (p + 1)) * nat N < 2 ^ 32"
      unfolding grows_by_def split by linarith
    from True have p1: "p < e" and p2: "\<not> \<not> ?ok" and p3: "\<not> e \<le> p + si * (st - 1)"
      by simp_all
    from "1.IH" [OF p1 p2 refl p3 h r room']
    have "grows_by f1 f' (nat (e - (p + 1)) * nat N)" .
    from grows_by_trans [OF g1 this] show ?thesis
      unfolding split .
  qed
qed

lemma skip_loop_grows:
  assumes "skip_loop impl c inp e N st S si f = Inr f'"
    and "total_count f + nat (S + 1 - si) * (nat e * nat N) < 2 ^ 32"
  shows "grows_by f f' (nat (S + 1 - si) * (nat e * nat N))"
  using assms
proof (induction impl c inp e N st S si f rule: skip_loop.induct)
  case (1 impl c inp e N st S si f)
  show ?case
  proof (cases "si \<le> S")
    case False
    with "1.prems"(1) have "f' = f"
      by (simp add: skip_loop.simps [of impl c inp e N st S si])
    then show ?thesis
      by (simp add: grows_by_refl)
  next
    case True
    with "1.prems"(1) obtain f1 where
      h: "start_loop impl c inp e N st si 0 f = Inr f1"
      and n: "si \<noteq> INT_MAX"
      and r: "skip_loop impl c inp e N st S (si + 1) f1 = Inr f'"
      by (simp add: skip_loop.simps [of impl c inp e N st S si] split: sum.splits if_splits)
    have split: "nat (S + 1 - si) * (nat e * nat N)
                   = nat e * nat N + nat (S + 1 - (si + 1)) * (nat e * nat N)"
    proof -
      from True have "nat (S + 1 - si) = Suc (nat (S + 1 - (si + 1)))" by linarith
      then show ?thesis by simp
    qed
    from "1.prems"(2) have room: "total_count f + nat (e - 0) * nat N < 2 ^ 32"
      unfolding split by simp
    from start_loop_grows [OF h room] have g1: "grows_by f f1 (nat e * nat N)"
      by simp
    from g1 "1.prems"(2)
    have "total_count f1 + nat (S + 1 - (si + 1)) * (nat e * nat N) < 2 ^ 32"
      unfolding grows_by_def split by linarith
    from "1.IH" [OF True h n r this]
    have "grows_by f1 f' (nat (S + 1 - (si + 1)) * (nat e * nat N))" .
    from grows_by_trans [OF g1 this] show ?thesis
      unfolding split .
  qed
qed

lemma skip_loop_none:
  "S < si \<Longrightarrow> skip_loop impl c inp e N st S si f = Inr f"
  by (simp add: skip_loop.simps [of impl c inp e N st S si])

lemma skip_loop_step:
  "si \<le> S \<Longrightarrow>
     skip_loop impl c inp e N st S si f =
       (case start_loop impl c inp e N st si 0 f of
          Inl err \<Rightarrow> Inl err
        | Inr f' \<Rightarrow>
            if si = INT_MAX then Inl SignedOverflow
            else skip_loop impl c inp e N st S (si + 1) f')"
  by (simp add: skip_loop.simps [of impl c inp e N st S si])

lemma skip_loop_extend:
  assumes "si \<le> S + 1"
  shows "skip_loop impl c inp e N st (S + 1) si f =
           (case skip_loop impl c inp e N st S si f of
              Inl err \<Rightarrow> Inl err
            | Inr f1 \<Rightarrow>
                (case start_loop impl c inp e N st (S + 1) 0 f1 of
                   Inl err \<Rightarrow> Inl err
                 | Inr f2 \<Rightarrow> if S + 1 = INT_MAX then Inl SignedOverflow else Inr f2))"
  using assms
proof (induction "nat (S + 1 - si)" arbitrary: si f)
  case 0
  then have si: "si = S + 1" by simp
  show ?case
    unfolding si
    by (simp add: skip_loop_step skip_loop_none split: sum.splits)
next
  case (Suc d)
  then have le: "si \<le> S" and d: "d = nat (S + 1 - (si + 1))" and le': "si + 1 \<le> S + 1"
    by linarith+
  from le have le1: "si \<le> S + 1" by simp
  show ?case
  proof (cases "start_loop impl c inp e N st si 0 f")
    case (Inl err)
    show ?thesis
      unfolding skip_loop_step [OF le] skip_loop_step [OF le1] using Inl by simp
  next
    case (Inr f1)
    show ?thesis
    proof (cases "si = INT_MAX")
      case True
      show ?thesis
        unfolding skip_loop_step [OF le] skip_loop_step [OF le1] using Inr True by simp
    next
      case False
      show ?thesis
        unfolding skip_loop_step [OF le] skip_loop_step [OF le1]
        using Inr False Suc.hyps(1) [OF d le', of f1] by simp
    qed
  qed
qed

lemma sint_plus_1:
  fixes w :: int64_t
  assumes "sint w < 2 ^ 63 - 1"
  shows "sint (w + 1) = sint w + 1"
proof -
  have "- (2 ^ 63) \<le> sint w"
    using sint_ge [of w] by simp
  with assms have "signed_take_bit 63 (sint w + 1) = sint w + 1"
    by (simp add: signed_take_bit_int_eq_self)
  then show ?thesis
    by (simp add: sint_word_ariths)
qed

lemma skip_loop_monotone:
  assumes "skip_loop impl c inp e N st (S + 1) 1 g = Inr f'"
    and "total_count g + nat (S + 1) * (nat e * nat N) < 2 ^ 32"
  shows "\<exists>f. skip_loop impl c inp e N st S 1 g = Inr f \<and> list_all2 (\<le>) f f'"
proof (cases "S + 1 < 1")
  case True
  then have "skip_loop impl c inp e N st (S + 1) 1 g = Inr g"
    and "skip_loop impl c inp e N st S 1 g = Inr g"
    by (simp_all add: skip_loop_none)
  with assms(1) show ?thesis
    by (simp add: list_all2_refl)
next
  case False
  then have S: "0 \<le> S" by simp
  then have le: "1 \<le> S + 1" by simp
  from assms(1) obtain f1 where
    f1: "skip_loop impl c inp e N st S 1 g = Inr f1"
    and last: "start_loop impl c inp e N st (S + 1) 0 f1 = Inr f'"
    unfolding skip_loop_extend [OF le]
    by (auto split: sum.splits if_splits)
  have split: "nat (S + 1) * (nat e * nat N) = nat (S + 1 - 1) * (nat e * nat N) + nat e * nat N"
  proof -
    from S have "nat (S + 1) = Suc (nat (S + 1 - 1))" by linarith
    then show ?thesis by simp
  qed
  from assms(2) have "total_count g + nat (S + 1 - 1) * (nat e * nat N) < 2 ^ 32"
    unfolding split by linarith
  from skip_loop_grows [OF f1 this] have g1: "grows_by g f1 (nat (S + 1 - 1) * (nat e * nat N))" .
  with assms(2) have "total_count f1 + nat (e - 0) * nat N < 2 ^ 32"
    unfolding grows_by_def split by simp
  from start_loop_grows [OF last this] have "list_all2 (\<le>) f1 f'"
    by (simp add: grows_by_def)
  with f1 show ?thesis
    by simp
qed

lemma skip_loop_distance_1:
  "skip_loop impl c inp e N st 1 1 f = start_loop impl c inp e N st 1 0 f"
  by (simp add: skip_loop_step skip_loop_none INT_MAX_def split: sum.splits)

lemma S_0_distance_1:
  assumes "sint (impl_S impl) = 0"
  shows "ComputeImpl_frequencies impl c inp total_items
           = distance_1_frequencies impl c inp total_items"
  using assms
  by (simp add: ComputeImpl_frequencies_def distance_1_frequencies_def Let_def
      skip_loop_distance_1 cong: sum.case_cong if_cong)

text \<open>The loops read \<open>ngram_indexes\<close> of the kernel and nothing else.\<close>

lemma IncrementCount_indexes:
  "ngram_indexes impl1 = ngram_indexes impl2 \<Longrightarrow>
     IncrementCount impl1 ngram_id f = IncrementCount impl2 ngram_id f"
  by (simp add: IncrementCount_def)

lemma record_hit_indexes:
  "ngram_indexes impl1 = ngram_indexes impl2 \<Longrightarrow>
     record_hit impl1 c sample f = record_hit impl2 c sample f"
  by (simp add: record_hit_def IncrementCount_indexes [of impl1 impl2] split: option.splits)

lemma unigram_loop_indexes:
  assumes "ngram_indexes impl1 = ngram_indexes impl2"
  shows "unigram_loop impl1 c inp e p f = unigram_loop impl2 c inp e p f"
proof (induction "nat (e - p)" arbitrary: p f)
  case 0
  then show ?case
    by (simp add: unigram_loop.simps [of _ c inp e p])
next
  case (Suc d)
  then have d: "d = nat (e - (p + 1))" by linarith
  show ?case
    unfolding unigram_loop.simps [of impl1 c inp e p] unigram_loop.simps [of impl2 c inp e p]
    by (simp add: Suc.hyps(1) [OF d] record_hit_indexes [OF assms]
          cong: sum.case_cong if_cong)
qed

lemma ngram_loop_indexes:
  assumes "ngram_indexes impl1 = ngram_indexes impl2"
  shows "ngram_loop impl1 c inp e N st si ni it sm f = ngram_loop impl2 c inp e N st si ni it sm f"
proof (induction "nat (N + 1 - ni)" arbitrary: ni it sm f)
  case 0
  then show ?case
    by (simp add: ngram_loop.simps [of _ c inp e N st si ni])
next
  case (Suc d)
  then have d: "d = nat (N + 1 - (ni + 1))" by linarith
  show ?case
    unfolding ngram_loop.simps [of impl1 c inp e N st si ni]
      ngram_loop.simps [of impl2 c inp e N st si ni]
    by (simp add: Suc.hyps(1) [OF d] record_hit_indexes [OF assms]
          cong: sum.case_cong if_cong)
qed

lemma start_loop_indexes:
  assumes "ngram_indexes impl1 = ngram_indexes impl2"
  shows "start_loop impl1 c inp e N st si p f = start_loop impl2 c inp e N st si p f"
proof (induction "nat (e - p)" arbitrary: p f)
  case 0
  then show ?case
    by (simp add: start_loop.simps [of _ c inp e N st si p])
next
  case (Suc d)
  then have d: "d = nat (e - (p + 1))" by linarith
  show ?case
    unfolding start_loop.simps [of impl1 c inp e N st si p]
      start_loop.simps [of impl2 c inp e N st si p]
    by (simp add: Let_def Suc.hyps(1) [OF d] ngram_loop_indexes [OF assms]
          cong: sum.case_cong if_cong)
qed

lemma skip_loop_indexes:
  assumes "ngram_indexes impl1 = ngram_indexes impl2"
  shows "skip_loop impl1 c inp e N st S si f = skip_loop impl2 c inp e N st S si f"
proof (induction "nat (S + 1 - si)" arbitrary: si f)
  case 0
  then show ?case
    by (simp add: skip_loop.simps [of _ c inp e N st S si])
next
  case (Suc d)
  then have d: "d = nat (S + 1 - (si + 1))" by linarith
  show ?case
    unfolding skip_loop.simps [of impl1 c inp e N st S si]
      skip_loop.simps [of impl2 c inp e N st S si]
    by (simp add: Suc.hyps(1) [OF d] start_loop_indexes [OF assms]
          cong: sum.case_cong if_cong)
qed

lemma frequencies_monotone:
  assumes "sint (impl_S impl) + 2 < INT_MAX"
    and "total_items * (1 + nat (sint (impl_S impl) + 2) * nat (sint (impl_N impl))) < 2 ^ 32"
    and "ComputeImpl_frequencies (impl\<lparr>impl_S := impl_S impl + 1\<rparr>) c inp total_items = Inr f'"
  shows "\<exists>f. ComputeImpl_frequencies impl c inp total_items = Inr f \<and> list_all2 (\<le>) f f'"
proof -
  define S where "S = sint (impl_S impl) + 1"
  define N where "N = sint (impl_N impl)"
  define st where "st = (if impl_all impl then sint (impl_M impl) else N)"
  define e where "e = int total_items"
  define f0 :: "uint32_t list" where "f0 = replicate (output_size impl) 0"
  define impl' where "impl' = impl\<lparr>impl_S := impl_S impl + 1\<rparr>"
  have idx: "ngram_indexes impl' = ngram_indexes impl"
    by (simp add: impl'_def)
  from assms(1) have small: "sint (impl_S impl) < 2 ^ 63 - 1"
    by (simp add: INT_MAX_def)
  then have S': "sint (impl_S impl') = S"
    unfolding S_def impl'_def using sint_plus_1 [of "impl_S impl"] by simp
  from assms(1) have ne: "S \<noteq> 2 ^ 63 - 1" "sint (impl_S impl) \<noteq> 2 ^ 63 - 1"
    by (simp_all add: INT_MAX_def S_def)
  have "nat (sint (impl_S impl) + 2) = nat (S + 1)"
    by (simp add: S_def)
  with assms(2) have bound: "total_items + nat (S + 1) * (total_items * nat N) < 2 ^ 32"
    by (simp add: N_def algebra_simps)
  have run': "ComputeImpl_frequencies impl' c inp total_items =
      (if st = 1 then
         (case unigram_loop impl c inp e 0 f0 of
            Inl err \<Rightarrow> Inl err
          | Inr g \<Rightarrow> if st + 1 > N then Inr g
                      else skip_loop impl c inp e N (st + 1) (S + 1) 1 g)
       else skip_loop impl c inp e N st (S + 1) 1 f0)"
    unfolding ComputeImpl_frequencies_def Let_def S'
      unigram_loop_indexes [OF idx] skip_loop_indexes [OF idx]
    using ne by (simp add: impl'_def N_def st_def e_def f0_def cong: sum.case_cong if_cong)
  have run: "ComputeImpl_frequencies impl c inp total_items =
      (if st = 1 then
         (case unigram_loop impl c inp e 0 f0 of
            Inl err \<Rightarrow> Inl err
          | Inr g \<Rightarrow> if st + 1 > N then Inr g
                      else skip_loop impl c inp e N (st + 1) S 1 g)
       else skip_loop impl c inp e N st S 1 f0)"
    unfolding ComputeImpl_frequencies_def Let_def
    using ne by (simp add: N_def st_def e_def f0_def S_def cong: sum.case_cong if_cong)
  from assms(3) have given: "ComputeImpl_frequencies impl' c inp total_items = Inr f'"
    by (simp add: impl'_def)
  have zero: "total_count f0 = 0"
    by (simp add: f0_def)
  show ?thesis
  proof (cases "st = 1")
    case False
    with given have "skip_loop impl c inp e N st (S + 1) 1 f0 = Inr f'"
      by (simp add: run')
    moreover have "total_count f0 + nat (S + 1) * (nat e * nat N) < 2 ^ 32"
      using bound zero by (simp add: e_def)
    ultimately have "\<exists>f. skip_loop impl c inp e N st S 1 f0 = Inr f \<and> list_all2 (\<le>) f f'"
      by (rule skip_loop_monotone)
    with False show ?thesis
      by (simp add: run)
  next
    case True
    with given obtain g where g: "unigram_loop impl c inp e 0 f0 = Inr g"
      and rest: "(if st + 1 > N then Inr g
                  else skip_loop impl c inp e N (st + 1) (S + 1) 1 g) = Inr f'"
      by (auto simp: run' split: sum.splits)
    have "total_count f0 + nat (e - 0) < 2 ^ 32"
      using bound zero by (simp add: e_def)
    from unigram_loop_grows [OF g this] zero have tg: "total_count g \<le> total_items"
      by (simp add: grows_by_def e_def)
    show ?thesis
    proof (cases "st + 1 > N")
      case True
      with rest g \<open>st = 1\<close> show ?thesis
        by (simp add: run list_all2_refl)
    next
      case False
      with rest have "skip_loop impl c inp e N (st + 1) (S + 1) 1 g = Inr f'"
        by simp
      moreover have "total_count g + nat (S + 1) * (nat e * nat N) < 2 ^ 32"
        using bound tg by (simp add: e_def)
      ultimately
      have "\<exists>f. skip_loop impl c inp e N (st + 1) S 1 g = Inr f \<and> list_all2 (\<le>) f f'"
        by (rule skip_loop_monotone)
      with False g \<open>st = 1\<close> show ?thesis
        by (simp add: run)
    qed
  qed
qed

subsection \<open>The pass for the distance 1\<close>

lemma slice_snoc:
  assumes "0 \<le> p" and "1 \<le> ni" and "p + ni - 1 < int (length inp)"
  shows "take (nat (ni - 1)) (drop (nat p) inp) @ [inp ! nat (p + ni - 1)]
           = take (nat ni) (drop (nat p) inp)"
proof -
  define k where "k = nat (ni - 1)"
  define q where "q = nat p"
  from assms have ni: "nat ni = Suc k" and idx: "nat (p + ni - 1) = q + k"
    and less: "k < length (drop q inp)"
    by (simp_all add: k_def q_def nat_add_distrib)
  from less have "drop q inp ! k = inp ! (q + k)"
    by (simp add: nth_drop)
  with take_Suc_conv_app_nth [OF less] show ?thesis
    unfolding ni idx by (simp add: k_def q_def)
qed

lemma ngram_loop_contiguous:
  assumes "0 \<le> p" and "1 \<le> ni"
  shows "ngram_loop impl c inp e N st 1 ni (p + ni - 1)
           (take (nat (ni - 1)) (drop (nat p) inp)) f
         = contiguous_loop impl c inp e N st p ni f"
  using assms(2)
proof (induction "nat (N + 1 - ni)" arbitrary: ni f)
  case 0
  then have "\<not> ni \<le> N" by simp
  then show ?case
    by (simp add: ngram_loop.simps [of impl c inp e N st 1 ni]
        contiguous_loop.simps [of impl c inp e N st p ni])
next
  case (Suc d)
  then have d: "d = nat (N + 1 - (ni + 1))" and ni': "1 \<le> ni + 1"
    by linarith+
  note IH = Suc.hyps(1) [OF d ni']
  show ?case
  proof (cases "p + ni - 1 < e \<and> 0 \<le> p + ni - 1 \<and> p + ni - 1 < int (length inp)")
    case False
    then show ?thesis
      by (auto simp: ngram_loop.simps [of impl c inp e N st 1 ni]
          contiguous_loop.simps [of impl c inp e N st p ni] read_item_def)
  next
    case True
    then have "p + ni - 1 < int (length inp)"
      by simp
    note snoc = slice_snoc [OF assms(1) Suc.prems this]
    have ih: "ngram_loop impl c inp e N st 1 (ni + 1) (p + ni)
                (take (nat ni) (drop (nat p) inp)) g
              = contiguous_loop impl c inp e N st p (ni + 1) g" for g
      using IH [of g] by simp
    show ?thesis
      unfolding ngram_loop.simps [of impl c inp e N st 1 ni]
        contiguous_loop.simps [of impl c inp e N st p ni]
      using True
      by (simp add: read_item_def snoc ih cong: sum.case_cong if_cong)
  qed
qed

subsection \<open>A long input of equal items\<close>

lemma sevens_read:
  "0 \<le> p \<Longrightarrow> p < int L \<Longrightarrow> read_item (replicate L (7 :: int64_t)) p = Inr 7"
  by (simp add: read_item_def)

lemma sevens_hit:
  "record_hit (sevens_impl S) (int_set (sevens_impl S)) [7, 7] [x] = Inr [x + 1]"
  by (simp add: record_hit_def PoolFind_def sevens_impl_def IncrementCount_def)

lemma sevens_ngram_loop:
  assumes "0 \<le> p" and "1 \<le> si" and "p + si < int L"
  shows "ngram_loop (sevens_impl S) (int_set (sevens_impl S)) (replicate L 7) (int L) 2 2 si 1 p
           [] [x] = Inr [x + 1]"
proof -
  from assms have r1: "read_item (replicate L (7 :: int64_t)) p = Inr 7"
    and r2: "read_item (replicate L (7 :: int64_t)) (p + si) = Inr 7"
    by (simp_all add: sevens_read)
  have l3: "ngram_loop (sevens_impl S) (int_set (sevens_impl S)) (replicate L 7) (int L) 2 2 si 3
              (p + si + si) [7, 7] [x + 1] = Inr [x + 1]"
    by (simp add: ngram_loop.simps [of _ _ _ _ 2 _ _ 3])
  have l2: "ngram_loop (sevens_impl S) (int_set (sevens_impl S)) (replicate L 7) (int L) 2 2 si 2
              (p + si) [7] [x] = Inr [x + 1]"
    using assms r2 l3
    by (simp add: ngram_loop.simps [of _ _ _ _ 2 _ _ 2] sevens_hit INT_MAX_def)
  show ?thesis
    using assms r1 l2
    by (simp add: ngram_loop.simps [of _ _ _ _ 2 _ _ 1] INT_MAX_def)
qed

lemma sevens_start_loop:
  assumes "1 \<le> si" and "si < 2 ^ 63" and "0 \<le> p" and "p + si \<le> int L"
  shows "start_loop (sevens_impl S) (int_set (sevens_impl S)) (replicate L 7) (int L) 2 2 si p [x]
           = Inr [x + of_nat (nat (int L - si - p))]"
  using assms(3,4)
proof (induction "nat (int L - si - p)" arbitrary: p x)
  case 0
  then have "p + si = int L" by simp
  with assms(1,2) show ?case
    by (simp add: start_loop.simps [of _ _ _ _ _ _ si p] int64_range_def)
next
  case (Suc d)
  then have d: "d = nat (int L - si - (p + 1))" and less: "p + si < int L"
    and p': "0 \<le> p + 1" "p + 1 + si \<le> int L"
    by linarith+
  have n: "nat (int L - si - p) = Suc (nat (int L - si - (p + 1)))"
    using less by linarith
  from less assms(1) have "p < int L" by simp
  with less assms(1,2) Suc.prems(1) show ?case
    unfolding start_loop.simps [of _ _ _ _ _ _ si p] n
    by (simp add: int64_range_def sevens_ngram_loop Suc.hyps(1) [OF d p'] Let_def)
qed

lemma sevens_frequencies_0:
  assumes "2 \<le> L"
  shows "ComputeImpl_frequencies (sevens_impl 0) (int_set (sevens_impl 0)) (replicate L 7) L
           = Inr [of_nat (L - 1)]"
proof -
  have "start_loop (sevens_impl 0) (int_set (sevens_impl 0)) (replicate L 7) (int L) 2 2 1 0 [0]
          = Inr [0 + of_nat (nat (int L - 1 - 0))]"
    using assms by (intro sevens_start_loop) simp_all
  moreover have "nat (int L - 1 - 0) = L - 1"
    by simp
  ultimately have "distance_1_frequencies (sevens_impl 0) (int_set (sevens_impl 0))
      (replicate L 7) L = Inr [of_nat (L - 1)]"
    by (simp add: distance_1_frequencies_def sevens_impl_def)
  moreover have "sint (impl_S (sevens_impl 0)) = 0"
    by (simp add: sevens_impl_def)
  ultimately show ?thesis
    by (simp add: S_0_distance_1)
qed

lemma sevens_frequencies_1:
  assumes "2 \<le> L"
  shows "ComputeImpl_frequencies (sevens_impl 1) (int_set (sevens_impl 1)) (replicate L 7) L
           = Inr [of_nat (L - 1) + of_nat (L - 2)]"
proof -
  let ?c = "int_set (sevens_impl 1)"
  have p1: "start_loop (sevens_impl 1) ?c (replicate L 7) (int L) 2 2 1 0 [0]
          = Inr [0 + of_nat (nat (int L - 1 - 0))]"
    using assms by (intro sevens_start_loop) simp_all
  have p2: "start_loop (sevens_impl 1) ?c (replicate L 7) (int L) 2 2 2 0 [of_nat (L - 1)]
          = Inr [of_nat (L - 1) + of_nat (nat (int L - 2 - 0))]"
    using assms by (intro sevens_start_loop) simp_all
  have n1: "nat (int L - 1 - 0) = L - 1" and n2: "nat (int L - 2 - 0) = L - 2"
    by simp_all
  have "skip_loop (sevens_impl 1) ?c (replicate L 7) (int L) 2 2 2 1 [0]
          = Inr [of_nat (L - 1) + of_nat (L - 2)]"
    using p1 p2 unfolding n1 n2
    by (simp add: skip_loop_step skip_loop_none INT_MAX_def)
  then show ?thesis
    by (simp add: ComputeImpl_frequencies_def sevens_impl_def)
qed


subsection \<open>Increasing the skip count\<close>

text \<open>
  Claim C5, as amended: with \<open>S = 0\<close> the only pass is the one for the distance 1, whose
  windows are the contiguous slices of the input; and for every input and every kernel with
  \<open>S + 2 < INT_MAX\<close> and \<open>total_items * (1 + (S + 2) * N) < 2 ^ 32\<close>, so that no counter
  can wrap, whenever the scan with skip count \<open>S + 1\<close> returns, the scan with skip count
  \<open>S\<close> returns as well, and with counters that are less or equal, bin by bin.
\<close>

theorem skip_count_monotone:
  "(sint (impl_S impl) = 0 \<longrightarrow>
      ComputeImpl_frequencies impl c input_data total_items
        = distance_1_frequencies impl c input_data total_items) \<and>
   (0 \<le> p \<longrightarrow>
      ngram_loop impl c input_data end_data N start_ngram_size 1 1 p [] frequencies
        = contiguous_loop impl c input_data end_data N start_ngram_size p 1 frequencies) \<and>
   (sint (impl_S impl) + 2 < INT_MAX \<longrightarrow>
    total_items * (1 + nat (sint (impl_S impl) + 2) * nat (sint (impl_N impl))) < 2 ^ 32 \<longrightarrow>
    ComputeImpl_frequencies (impl\<lparr>impl_S := impl_S impl + 1\<rparr>) c input_data total_items
      = Inr f' \<longrightarrow>
    (\<exists>f. ComputeImpl_frequencies impl c input_data total_items = Inr f \<and>
         list_all2 (\<le>) f f'))"
proof (intro conjI impI)
  assume "sint (impl_S impl) = 0"
  then show "ComputeImpl_frequencies impl c input_data total_items
        = distance_1_frequencies impl c input_data total_items"
    by (rule S_0_distance_1)
next
  assume "0 \<le> p"
  from ngram_loop_contiguous [OF this, of 1 impl c input_data end_data N start_ngram_size
      frequencies]
  show "ngram_loop impl c input_data end_data N start_ngram_size 1 1 p [] frequencies
        = contiguous_loop impl c input_data end_data N start_ngram_size p 1 frequencies"
    by simp
next
  assume "sint (impl_S impl) + 2 < INT_MAX"
    and "total_items * (1 + nat (sint (impl_S impl) + 2) * nat (sint (impl_N impl))) < 2 ^ 32"
    and "ComputeImpl_frequencies (impl\<lparr>impl_S := impl_S impl + 1\<rparr>) c input_data total_items
      = Inr f'"
  then show "\<exists>f. ComputeImpl_frequencies impl c input_data total_items = Inr f \<and>
         list_all2 (\<le>) f f'"
    by (rule frequencies_monotone)
qed


theorem skip_count_monotone_witness:
  "sint (impl_S (sevens_impl 0)) = 0 \<and>
   sint (impl_S (sevens_impl 0)) + 2 < INT_MAX \<and>
   3 * (1 + nat (sint (impl_S (sevens_impl 0)) + 2) * nat (sint (impl_N (sevens_impl 0))))
     < (2 ^ 32 :: nat) \<and>
   ComputeImpl_frequencies ((sevens_impl 0)\<lparr>impl_S := impl_S (sevens_impl 0) + 1\<rparr>)
     (int_set (sevens_impl 0)) [7, 7, 7] 3 = Inr [3] \<and>
   ComputeImpl_frequencies (sevens_impl 0) (int_set (sevens_impl 0)) [7, 7, 7] 3 = Inr [2] \<and>
   distance_1_frequencies (sevens_impl 0) (int_set (sevens_impl 0)) [7, 7, 7] 3 = Inr [2] \<and>
   list_all2 (\<le>) [2 :: uint32_t] [3]"
proof -
  have s: "sint (impl_S (sevens_impl 0)) = 0" "sint (impl_N (sevens_impl 0)) = 2"
    by (simp_all add: sevens_impl_def)
  have r1: "ComputeImpl_frequencies ((sevens_impl 0)\<lparr>impl_S := impl_S (sevens_impl 0) + 1\<rparr>)
     (int_set (sevens_impl 0)) [7, 7, 7] 3 = Inr [3]"
    unfolding sevens_impl_def by code_simp
  have r0: "ComputeImpl_frequencies (sevens_impl 0) (int_set (sevens_impl 0)) [7, 7, 7] 3
     = Inr [2]"
    unfolding sevens_impl_def by code_simp
  from skip_count_monotone [of "sevens_impl 0" "int_set (sevens_impl 0)" "[7, 7, 7]" 3
      0 0 0 0 "[]" "[3]"] s r1 r0
  show ?thesis
    by (simp add: INT_MAX_def)
qed

text \<open>
  Claim C5 as stated, for every input, does not hold: the counters are \<open>uint32_t\<close> and wrap.
  On \<open>2 ^ 31 + 2\<close> items 7 and the pool of the bigram \<open>(7, 7)\<close> the scan with \<open>S = 0\<close>
  counts \<open>2 ^ 31 + 1\<close> windows, and the scan with \<open>S = 1\<close> counts \<open>2 ^ 31\<close> more, which
  leaves the counter at 1.
\<close>

theorem counters_wrap:
  "Ngram (sevens_info 0) = Inr (sevens_impl 0) \<and>
   Ngram (sevens_info 1) = Inr (sevens_impl 1) \<and>
   sevens_impl 1 = (sevens_impl 0)\<lparr>impl_S := impl_S (sevens_impl 0) + 1\<rparr> \<and>
   ComputeImpl_frequencies (sevens_impl 0) (int_set (sevens_impl 0))
     (replicate (2 ^ 31 + 2) 7) (2 ^ 31 + 2) = Inr [2147483649] \<and>
   ComputeImpl_frequencies (sevens_impl 1) (int_set (sevens_impl 1))
     (replicate (2 ^ 31 + 2) 7) (2 ^ 31 + 2) = Inr [1] \<and>
   \<not> list_all2 (\<le>) [2147483649 :: uint32_t] [1]"
proof -
  have b0: "Ngram (sevens_info 0) = Inr (sevens_impl 0)"
    unfolding sevens_info_def sevens_impl_def by code_simp
  have b1: "Ngram (sevens_info 1) = Inr (sevens_impl 1)"
    unfolding sevens_info_def sevens_impl_def by code_simp
  have s: "sevens_impl 1 = (sevens_impl 0)\<lparr>impl_S := impl_S (sevens_impl 0) + 1\<rparr>"
    by (simp add: sevens_impl_def)
  have L: "2 \<le> (2 ^ 31 + 2 :: nat)"
    by simp
  have w0: "of_nat (2 ^ 31 + 2 - 1) = (2147483649 :: uint32_t)"
    by simp
  have w1: "of_nat (2 ^ 31 + 2 - 1) + of_nat (2 ^ 31 + 2 - 2) = (1 :: uint32_t)"
    by simp
  note f0 = sevens_frequencies_0 [OF L, unfolded w0]
  note f1 = sevens_frequencies_1 [OF L, unfolded w1]
  have "\<not> list_all2 (\<le>) [2147483649 :: uint32_t] [1]"
    by (simp add: word_le_nat_alt)
  with b0 b1 s f0 f1 show ?thesis
    by blast
qed


subsection \<open>TFIDF without weights\<close>

text \<open>
  Claim C6: in mode TFIDF with no \<open>weights\<close> attribute, the encoder writes
  \<open>out[i] = count[i]\<close>, converted to float, for every bin: the same output as in mode TF
  on the same counts, and never a failure.
\<close>

theorem TFIDF_without_weights:
  assumes "Ngram info = Inr impl"
    and "attr_mode info = Some ''TFIDF''"
    and "attr_weights info = None"
  shows "OutputResult fmul impl frequences = Inr (map float_of_uint32 frequences) \<and>
         OutputResult fmul impl frequences
           = OutputResult fmul (impl\<lparr>weighting_criteria := kTF\<rparr>) frequences"
proof -
  from Ngram_fields(8,9) [OF assms(1)] assms(2,3)
  have "weights impl = []" and "weighting_criteria impl = kTFIDF"
    by (auto split: WeightingCriteria.splits)
  then show ?thesis
    by (simp add: OutputResult_def)
qed

theorem TFIDF_without_weights_witness:
  "Ngram (scenario_info\<lparr>attr_mode := Some ''TFIDF''\<rparr>)
     = Inr (scenario_impl\<lparr>weighting_criteria := kTFIDF\<rparr>) \<and>
   attr_mode (scenario_info\<lparr>attr_mode := Some ''TFIDF''\<rparr>) = Some ''TFIDF'' \<and>
   attr_weights (scenario_info\<lparr>attr_mode := Some ''TFIDF''\<rparr>) = None \<and>
   OutputResult (*) (scenario_impl\<lparr>weighting_criteria := kTFIDF\<rparr>) [2, 1, 1] = Inr [2, 1, 1]"
proof -
  have built:
    "Ngram (scenario_info\<lparr>attr_mode := Some ''TFIDF''\<rparr>)
       = Inr (scenario_impl\<lparr>weighting_criteria := kTFIDF\<rparr>)"
    unfolding scenario_info_def scenario_impl_def by code_simp
  have mode: "attr_mode (scenario_info\<lparr>attr_mode := Some ''TFIDF''\<rparr>) = Some ''TFIDF''"
    by simp
  have none: "attr_weights (scenario_info\<lparr>attr_mode := Some ''TFIDF''\<rparr>) = None"
    by (simp add: scenario_info_def)
  have floats: "map float_of_uint32 [2, 1, 1] = [2, 1, 1]"
    by (simp add: float_of_uint32_def)
  from TFIDF_without_weights [OF built mode none, of "(*)" "[2, 1, 1]"] built mode none floats
  show ?thesis
    by simp
qed

subsection \<open>An id without entry in ngram\_indexes\<close>

text \<open>
  Claim C8 (for every accepted configuration, every id that a pool hit can produce is mapped
  by \<open>ngram_indexes\<close> to a bin below \<open>output_size\<close>, so that the checks of
  \<open>IncrementCount\<close> never fail) does not hold of the code: the constructor never compares
  the number of n-grams with the size of \<open>ngram_indexes\<close>. The configuration below is
  accepted, the item 3 hits the pool entry with id 2, and the first assertion of
  \<open>IncrementCount\<close> fails.
\<close>

theorem unmapped_id_reachable:
  "Ngram short_indexes_info = Inr short_indexes_impl \<and>
   output_size short_indexes_impl = 1 \<and>
   PoolFind (int_set short_indexes_impl) [3] = Some \<lparr>Id = 2, items = [3]\<rparr> \<and>
   length (ngram_indexes short_indexes_impl) = 1 \<and>
   IncrementCount short_indexes_impl 2 [0] = Inl AssertionFailed \<and>
   Compute fmul short_indexes_impl \<lparr>Shape = [1], Data = Int64Data [3]\<rparr>
     = (short_indexes_impl, Inl AssertionFailed)"
proof -
  have built: "Ngram short_indexes_info = Inr short_indexes_impl"
    unfolding short_indexes_info_def short_indexes_impl_def by code_simp
  have hit: "PoolFind (int_set short_indexes_impl) [3] = Some \<lparr>Id = 2, items = [3]\<rparr>"
    unfolding short_indexes_impl_def by code_simp
  have incr: "IncrementCount short_indexes_impl 2 [0] = Inl AssertionFailed"
    unfolding short_indexes_impl_def by code_simp
  have counted:
    "ComputeImpl_frequencies short_indexes_impl (int_set short_indexes_impl) [3] 1
       = Inl AssertionFailed"
    unfolding short_indexes_impl_def by code_simp
  have run:
    "Compute fmul short_indexes_impl \<lparr>Shape = [1], Data = Int64Data [3]\<rparr>
       = (short_indexes_impl, Inl AssertionFailed)"
    using counted by (simp add: Compute_def ComputeImpl_def)
  have sizes: "output_size short_indexes_impl = 1"
    "length (ngram_indexes short_indexes_impl) = 1"
    by (simp_all add: short_indexes_impl_def)
  from built hit incr run sizes show ?thesis
    by simp
qed

subsection \<open>Unsupported element types\<close>



end
